theory Spec2Isabelle
  imports Main
begin

unbundle bit_operations_syntax

section \<open>Platform primitives used by \<open>src/js/app.js\<close>\<close>

subsection \<open>SHA-256, the algorithm behind \<open>crypto.subtle.digest('SHA-256', _)\<close>\<close>

text \<open>
  Bytes and 32-bit words are natural numbers; every 32-bit result is cut back to
  32 bits by \<open>trunc32\<close>, so the wrap-around of the word arithmetic is written out.
\<close>

definition K256 :: "nat list" where
  "K256 = [
   1116352408, 1899447441, 3049323471, 3921009573, 961987163, 1508970993, 2453635748, 2870763221,
   3624381080, 310598401, 607225278, 1426881987, 1925078388, 2162078206, 2614888103, 3248222580,
   3835390401, 4022224774, 264347078, 604807628, 770255983, 1249150122, 1555081692, 1996064986,
   2554220882, 2821834349, 2952996808, 3210313671, 3336571891, 3584528711, 113926993, 338241895,
   666307205, 773529912, 1294757372, 1396182291, 1695183700, 1986661051, 2177026350, 2456956037,
   2730485921, 2820302411, 3259730800, 3345764771, 3516065817, 3600352804, 4094571909, 275423344,
   430227734, 506948616, 659060556, 883997877, 958139571, 1322822218, 1537002063, 1747873779,
   1955562222, 2024104815, 2227730452, 2361852424, 2428436474, 2756734187, 3204031479, 3329325298]"

definition H256 :: "nat list" where
  "H256 = [1779033703, 3144134277, 1013904242, 2773480762,
           1359893119, 2600822924, 528734635, 1541459225]"

definition trunc32 :: "nat \<Rightarrow> nat" where
  "trunc32 x = x AND 0xFFFFFFFF"

definition rotr :: "nat \<Rightarrow> nat \<Rightarrow> nat" where
  "rotr n x = drop_bit n x OR trunc32 (push_bit (32 - n) x)"

definition Ch :: "nat \<Rightarrow> nat \<Rightarrow> nat \<Rightarrow> nat" where
  "Ch x y z = (x AND y) XOR ((0xFFFFFFFF - x) AND z)"

definition Maj :: "nat \<Rightarrow> nat \<Rightarrow> nat \<Rightarrow> nat" where
  "Maj a b c = (a AND b) XOR (a AND c) XOR (b AND c)"

definition bsig0 :: "nat \<Rightarrow> nat" where
  "bsig0 x = rotr 2 x XOR rotr 13 x XOR rotr 22 x"

definition bsig1 :: "nat \<Rightarrow> nat" where
  "bsig1 x = rotr 6 x XOR rotr 11 x XOR rotr 25 x"

definition ssig0 :: "nat \<Rightarrow> nat" where
  "ssig0 x = rotr 7 x XOR rotr 18 x XOR drop_bit 3 x"

definition ssig1 :: "nat \<Rightarrow> nat" where
  "ssig1 x = rotr 17 x XOR rotr 19 x XOR drop_bit 10 x"

text \<open>The message schedule, newest word first: the head of the list is \<open>W(t-1)\<close>.\<close>

fun schedule :: "nat \<Rightarrow> nat list \<Rightarrow> nat list" where
  "schedule 0 ws = ws"
| "schedule (Suc n) ws =
     schedule n (trunc32 (ssig1 (ws ! 1) + ws ! 6 + ssig0 (ws ! 14) + ws ! 15) # ws)"

definition step256 :: "nat \<Rightarrow> nat \<Rightarrow> nat list \<Rightarrow> nat list" where
  "step256 t1 t2 s =
     trunc32 (t1 + t2) # take 3 s @ trunc32 (s ! 3 + t1) # take 3 (drop 4 s)"

definition round256 :: "nat list \<Rightarrow> (nat \<times> nat) \<Rightarrow> nat list" where
  "round256 s kw =
     step256 (trunc32 (s ! 7 + bsig1 (s ! 4) + Ch (s ! 4) (s ! 5) (s ! 6) + fst kw + snd kw))
             (trunc32 (bsig0 (s ! 0) + Maj (s ! 0) (s ! 1) (s ! 2))) s"

definition compress :: "nat list \<Rightarrow> nat list \<Rightarrow> nat list" where
  "compress hs m =
     map trunc32 (map2 (+) hs (foldl round256 hs (zip K256 (rev (schedule 48 (rev m))))))"

fun words_of :: "nat list \<Rightarrow> nat list" where
  "words_of (a # b # c # d # r) = (((a * 256 + b) * 256 + c) * 256 + d) # words_of r"
| "words_of _ = []"

fun chunks :: "nat list \<Rightarrow> nat list list" where
  "chunks [] = []"
| "chunks (w # ws) = take 16 (w # ws) # chunks (drop 16 (w # ws))"

definition len_bytes :: "nat \<Rightarrow> nat list" where
  "len_bytes v = map (\<lambda>i. drop_bit (8 * i) v mod 256) [7, 6, 5, 4, 3, 2, 1, 0]"

definition pad :: "nat list \<Rightarrow> nat list" where
  "pad m = m @ [0x80] @ replicate ((119 - length m mod 64) mod 64) 0
             @ len_bytes (8 * length m)"

definition word_bytes :: "nat \<Rightarrow> nat list" where
  "word_bytes w = [drop_bit 24 w mod 256, drop_bit 16 w mod 256, drop_bit 8 w mod 256, w mod 256]"

definition SHA256_digest :: "nat list \<Rightarrow> nat list" where
  "SHA256_digest m =
     concat (map word_bytes (foldl compress H256 (chunks (words_of (pad m)))))"

subsection \<open>Strings, \<open>TextEncoder\<close> and \<open>Number.prototype.toString(16)\<close>\<close>

text \<open>
  A JavaScript string is modelled as a \<^typ>\<open>string\<close> whose characters are the code
  units \<open>0 .. 255\<close>. \<open>TextEncoder().encode\<close> is UTF-8: one byte below \<open>0x80\<close>, two
  bytes from \<open>0x80\<close> to \<open>0xFF\<close>.
\<close>

definition utf8_char :: "char \<Rightarrow> nat list" where
  "utf8_char c = (let n = of_char c in
     if n < 128 then [n] else [192 + n div 64, 128 + n mod 64])"

definition TextEncoder_encode :: "string \<Rightarrow> nat list" where
  "TextEncoder_encode s = concat (map utf8_char s)"

definition hexdigit :: "nat \<Rightarrow> char" where
  "hexdigit n = ''0123456789abcdef'' ! (n mod 16)"

fun toString16 :: "nat \<Rightarrow> string" where
  "toString16 n = (if n < 16 then [hexdigit n] else toString16 (n div 16) @ [hexdigit (n mod 16)])"

declare toString16.simps [simp del]

text \<open>\<open>s.slice(-2)\<close>: the last two characters, or all of \<open>s\<close> when it is shorter.\<close>

definition slice_last2 :: "string \<Rightarrow> string" where
  "slice_last2 s = drop (length s - 2) s"

section \<open>The ledger of \<open>src/js/app.js\<close>\<close>

subsection \<open>\<open>sha256\<close>\<close>

definition sha256 :: "string \<Rightarrow> string" where
  "sha256 message =
     (let msgBuffer = TextEncoder_encode message;
          hashArray = SHA256_digest msgBuffer
      in concat (map (\<lambda>b. slice_last2 (''00'' @ toString16 b)) hashArray))"

subsection \<open>\<open>JSON.stringify\<close> of strings and of flat objects\<close>

text \<open>
  \<open>QuoteJSONString\<close> of ECMA-262: the two-character escapes, \<open>\u00XX\<close> for the other
  control characters, every other code unit as it is.
\<close>

definition json_escape :: "char \<Rightarrow> string" where
  "json_escape c =
     (if c = CHR 0x08 then [CHR 0x5C, CHR ''b'']
      else if c = CHR 0x09 then [CHR 0x5C, CHR ''t'']
      else if c = CHR 0x0A then [CHR 0x5C, CHR ''n'']
      else if c = CHR 0x0C then [CHR 0x5C, CHR ''f'']
      else if c = CHR 0x0D then [CHR 0x5C, CHR ''r'']
      else if c = CHR 0x22 then [CHR 0x5C, CHR 0x22]
      else if c = CHR 0x5C then [CHR 0x5C, CHR 0x5C]
      else if (of_char c :: nat) < 32 then
        [CHR 0x5C, CHR ''u'', CHR ''0'', CHR ''0'',
         hexdigit (of_char c div 16), hexdigit (of_char c mod 16)]
      else [c])"

definition JSON_quote :: "string \<Rightarrow> string" where
  "JSON_quote s = CHR 0x22 # concat (map json_escape s) @ [CHR 0x22]"

text \<open>
  A JavaScript value of the ledger is a string or \<open>undefined\<close> (\<open>None\<close>): these are
  the values the form handlers and \<open>addBlock\<close> store in a record. Every element of
  the chain is an object with such properties.
\<close>

type_synonym jsval = "string option"

fun join_comma :: "string list \<Rightarrow> string" where
  "join_comma [] = []"
| "join_comma [x] = x"
| "join_comma (x # y # r) = x @ '','' @ join_comma (y # r)"

text \<open>
  \<open>JSON.stringify\<close> of an object whose own properties are the given keys in the given
  order: a property whose value is \<open>undefined\<close> is left out, the others are joined with
  commas, without white space.
\<close>

definition JSON_member :: "string \<times> string \<Rightarrow> string" where
  "JSON_member kv = JSON_quote (fst kv) @ '':'' @ JSON_quote (snd kv)"

fun present :: "(string \<times> jsval) list \<Rightarrow> (string \<times> string) list" where
  "present [] = []"
| "present ((k, None) # r) = present r"
| "present ((k, Some v) # r) = (k, v) # present r"

definition JSON_stringify :: "(string \<times> jsval) list \<Rightarrow> string" where
  "JSON_stringify props = ''{'' @ join_comma (map JSON_member (present props)) @ ''}''"

text \<open>A template literal prints \<open>undefined\<close> as the word.\<close>

fun template :: "jsval \<Rightarrow> string" where
  "template None = ''undefined''"
| "template (Some s) = s"

text \<open>\<open>v || ''\<close>: \<open>undefined\<close> and the empty string are falsy.\<close>

fun truthy :: "jsval \<Rightarrow> bool" where
  "truthy None = False"
| "truthy (Some s) = (s \<noteq> [])"

definition or_empty :: "jsval \<Rightarrow> jsval" where
  "or_empty v = (if truthy v then v else Some [])"

subsection \<open>Records, blocks and the global state\<close>

text \<open>
  A record object, with the properties the program reads and writes. The objects of the
  program live in a heap and are named by references: \<open>addBlock\<close> writes into the object
  it is given and pushes that same object.
\<close>

record block =
  propertyID :: jsval
  owner :: jsval
  description :: jsval
  remarks :: jsval
  action :: jsval
  timestamp :: jsval
  previousHash :: jsval
  signature :: jsval
  currentHash :: jsval

type_synonym ref = nat

datatype timeline = NoActions | Steps "block list"

record state =
  heap :: "ref \<Rightarrow> block"
  blockchain :: "ref list"
  propertyLedger :: "block list"
  propertyTimeline :: timeline
  statTotalProperties :: nat
  statTotalTransfers :: nat
  statUniqueOwners :: nat
  validationResult :: string
  alerts :: "string list"
  nextRef :: ref

definition blocks :: "state \<Rightarrow> block list" where
  "blocks st = map (heap st) (blockchain st)"

subsection \<open>\<open>calculateHash\<close> and \<open>signRecord\<close>\<close>

definition dataForHash :: "block \<Rightarrow> (string \<times> jsval) list" where
  "dataForHash record =
     [(''propertyID'', propertyID record),
      (''owner'', owner record),
      (''description'', or_empty (description record)),
      (''remarks'', or_empty (remarks record)),
      (''action'', action record),
      (''timestamp'', timestamp record),
      (''previousHash'', previousHash record)]"

definition calculateHash :: "block \<Rightarrow> string" where
  "calculateHash record = sha256 (JSON_stringify (dataForHash record))"

definition toSign :: "block \<Rightarrow> string \<Rightarrow> string" where
  "toSign record userSecret =
     template (propertyID record) @ ''|'' @ template (owner record) @ ''|'' @
     template (action record) @ ''|'' @ template (timestamp record) @ ''|'' @ userSecret"

definition signRecord :: "block \<Rightarrow> string \<Rightarrow> string" where
  "signRecord record userSecret = sha256 (toSign record userSecret)"

subsection \<open>Rendering and statistics\<close>

text \<open>
  The page is modelled by what is shown: the blocks of the ledger list in order, the
  timeline, the three counters, the validation text and the alerts raised so far. The
  HTML around them is left out.
\<close>

definition alert :: "string \<Rightarrow> state \<Rightarrow> state" where
  "alert msg st = st\<lparr>alerts := alerts st @ [msg]\<rparr>"

definition renderLedger :: "state \<Rightarrow> state" where
  "renderLedger st = st\<lparr>propertyLedger := blocks st\<rparr>"

definition showTimeline :: "string \<Rightarrow> state \<Rightarrow> state" where
  "showTimeline pid st =
     (let timelineBlocks = filter (\<lambda>b. propertyID b = Some pid) (blocks st)
      in st\<lparr>propertyTimeline :=
              (if length timelineBlocks = 0 then NoActions else Steps timelineBlocks)\<rparr>)"

definition updateStats :: "state \<Rightarrow> state" where
  "updateStats st =
     (let bs = blocks st;
          registered = remdups (map propertyID (filter (\<lambda>b. action b = Some ''Register'') bs));
          transfers = length (filter (\<lambda>b. action b \<noteq> Some ''Register'' \<and> action b = Some ''Transfer'') bs);
          owners = remdups (map owner bs)
      in st\<lparr>statTotalProperties := length registered,
             statTotalTransfers := transfers,
             statUniqueOwners := length owners\<rparr>)"

subsection \<open>\<open>addBlock\<close>\<close>

text \<open>
  \<open>now\<close> is the value of \<open>new Date().toISOString()\<close> at the call. The four assignments
  go to the object \<open>record\<close> in the heap, in the order of the source, and the reference is
  pushed; one call runs to its end before the next starts.
\<close>

definition addBlock :: "ref \<Rightarrow> string \<Rightarrow> string \<Rightarrow> state \<Rightarrow> state" where
  "addBlock record userSecret now st =
     (let chain = blockchain st;
          h0 = heap st;
          prev = (if chain = [] then Some ''0'' else currentHash (h0 (last chain)));
          h1 = h0(record := (h0 record)\<lparr>previousHash := prev\<rparr>);
          h2 = h1(record := (h1 record)\<lparr>timestamp := Some now\<rparr>);
          h3 = h2(record := (h2 record)\<lparr>signature := Some (signRecord (h2 record) userSecret)\<rparr>);
          h4 = h3(record := (h3 record)\<lparr>currentHash := Some (calculateHash (h3 record))\<rparr>)
      in updateStats (renderLedger (st\<lparr>heap := h4, blockchain := chain @ [record]\<rparr>)))"

subsection \<open>\<open>validateChain\<close>\<close>

text \<open>
  The result names the check that failed and the loop index \<open>i\<close> at which it failed;
  \<open>validation_message\<close> gives the text the source returns, which counts blocks from 1.
\<close>

datatype validation =
  ChainEmpty | ChainValid | HashMismatch nat | BrokenLink nat | SignatureInvalid nat

definition check_block :: "state \<Rightarrow> string \<Rightarrow> nat \<Rightarrow> validation option" where
  "check_block st globalSecret i =
     (let current = heap st (blockchain st ! i);
          recomputedHash = calculateHash current
      in if Some recomputedHash \<noteq> currentHash current then Some (HashMismatch i)
         else if i > 0 \<and>
                 previousHash current \<noteq> currentHash (heap st (blockchain st ! (i - 1)))
           then Some (BrokenLink i)
         else if Some (signRecord current globalSecret) \<noteq> signature current
           then Some (SignatureInvalid i)
         else None)"

function validate_from :: "state \<Rightarrow> string \<Rightarrow> nat \<Rightarrow> validation" where
  "validate_from st globalSecret i =
     (if i < length (blockchain st) then
        (case check_block st globalSecret i of
           Some failure \<Rightarrow> failure
         | None \<Rightarrow> validate_from st globalSecret (Suc i))
      else ChainValid)"
  by pat_completeness auto
termination
  by (relation "measure (\<lambda>(st, s, i). length (blockchain st) - i)") auto

declare validate_from.simps [simp del]

definition validateChain :: "string \<Rightarrow> state \<Rightarrow> validation" where
  "validateChain globalSecret st =
     (if length (blockchain st) = 0 then ChainEmpty else validate_from st globalSecret 0)"

fun decimal :: "nat \<Rightarrow> string" where
  "decimal n = (if n < 10 then [hexdigit n] else decimal (n div 10) @ [hexdigit (n mod 10)])"

declare decimal.simps [simp del]

fun validation_message :: "validation \<Rightarrow> string" where
  "validation_message ChainEmpty = ''Chain is empty (nothing to validate).''"
| "validation_message ChainValid = ''Chain is valid. All hashes and signatures match.''"
| "validation_message (HashMismatch i) =
     ''Invalid: hash mismatch at block '' @ decimal (i + 1) @ ''.''"
| "validation_message (BrokenLink i) =
     ''Invalid: broken link between block '' @ decimal i @ '' and '' @ decimal (i + 1) @ ''.''"
| "validation_message (SignatureInvalid i) =
     ''Warning: signature invalid at block '' @ decimal (i + 1) @
     '' (wrong secret or tampering).''"

text \<open>A session starts with an empty chain; the heap holds the objects of the callers.\<close>

definition empty_block :: block where
  "empty_block = \<lparr>propertyID = None, owner = None, description = None, remarks = None,
     action = None, timestamp = None, previousHash = None, signature = None,
     currentHash = None\<rparr>"

definition init :: "(ref \<Rightarrow> block) \<Rightarrow> state" where
  "init h = \<lparr>heap = h, blockchain = [], propertyLedger = [], propertyTimeline = NoActions,
     statTotalProperties = 0, statTotalTransfers = 0, statUniqueOwners = 0,
     validationResult = [], alerts = [], nextRef = 0\<rparr>"

text \<open>
  A chain built by \<open>addBlock\<close> alone: one call per entry, each with the record object,
  the secret and the time of that call.
\<close>

fun build :: "(ref \<times> string \<times> string) list \<Rightarrow> state \<Rightarrow> state" where
  "build [] st = st"
| "build ((record, userSecret, now) # calls) st = build calls (addBlock record userSecret now st)"

subsection \<open>The click handlers\<close>

text \<open>
  The arguments are the trimmed values of the form fields and the time of the call.
  Each handler that appends hands \<open>addBlock\<close> a new object, made by its object literal.
\<close>

definition new_object :: "block \<Rightarrow> state \<Rightarrow> state" where
  "new_object b st = st\<lparr>heap := (heap st)(nextRef st := b), nextRef := Suc (nextRef st)\<rparr>"

definition registerProperty ::
  "string \<Rightarrow> string \<Rightarrow> string \<Rightarrow> string \<Rightarrow> string \<Rightarrow> state \<Rightarrow> state" where
  "registerProperty pid desc ownerName userSecret now st =
     (if userSecret = [] then
        alert ''Please enter your Owner Secret (private key) first.'' st
      else if \<exists>b \<in> set (blocks st). propertyID b = Some pid \<and> action b = Some ''Register'' then
        alert ''Property ID already registered!'' st
      else if pid \<noteq> [] \<and> ownerName \<noteq> [] then
        alert ''Property registered and signed successfully!''
          (addBlock (nextRef st) userSecret now
             (new_object (empty_block\<lparr>propertyID := Some pid, description := Some desc,
                 owner := Some ownerName, action := Some ''Register''\<rparr>) st))
      else alert ''Please enter Property ID and Owner Name.'' st)"

definition transferProperty ::
  "string \<Rightarrow> string \<Rightarrow> string \<Rightarrow> string \<Rightarrow> string \<Rightarrow> state \<Rightarrow> state" where
  "transferProperty pid newOwner rem userSecret now st =
     (if userSecret = [] then
        alert ''Please enter your Owner Secret (private key) first.'' st
      else if pid \<noteq> [] \<and> newOwner \<noteq> [] then
        (if \<not> (\<exists>b \<in> set (blocks st). propertyID b = Some pid) then
           alert ''Property ID not found! Register it first.'' st
         else
           alert ''Property ownership transferred and signed!''
             (addBlock (nextRef st) userSecret now
                (new_object (empty_block\<lparr>propertyID := Some pid, owner := Some newOwner,
                    action := Some ''Transfer'', remarks := Some rem\<rparr>) st)))
      else alert ''Please enter Property ID and new Owner Name.'' st)"

definition showTimeline_click :: "string \<Rightarrow> state \<Rightarrow> state" where
  "showTimeline_click pid st =
     (if pid = [] then alert ''Please enter a Property ID for timeline search.'' st
      else showTimeline pid st)"

definition validateChain_click :: "string \<Rightarrow> state \<Rightarrow> state" where
  "validateChain_click userSecret st =
     (if userSecret = [] then
        alert ''Enter the Owner Secret you used to create the blocks, to verify signatures.'' st
      else st\<lparr>validationResult := validation_message (validateChain userSecret st)\<rparr>)"

subsection \<open>\<open>downloadLedger\<close>\<close>

text \<open>
  The text of the file that \<open>downloadLedger\<close> offers:
  \<open>JSON.stringify(blockchain, null, 2)\<close>. ECMA-262 prints an array with its elements on
  lines of their own, indented by two spaces, and an object of the array with its
  members indented by four, a colon and a space between key and value; a property whose
  value is \<open>undefined\<close> is left out, the empty array is \<open>[]\<close> and an object without
  members \<open>{}\<close>. The heap keeps the fields of an object and not the order of its own
  properties, so \<open>keys\<close> gives, for each object, its own property keys in their order.
\<close>

definition field_names :: "string list" where
  "field_names = [''propertyID'', ''owner'', ''description'', ''remarks'', ''action'',
     ''timestamp'', ''previousHash'', ''signature'', ''currentHash'']"

definition get_field :: "string \<Rightarrow> block \<Rightarrow> jsval" where
  "get_field k b =
     (if k = ''propertyID'' then propertyID b
      else if k = ''owner'' then owner b
      else if k = ''description'' then description b
      else if k = ''remarks'' then remarks b
      else if k = ''action'' then action b
      else if k = ''timestamp'' then timestamp b
      else if k = ''previousHash'' then previousHash b
      else if k = ''signature'' then signature b
      else if k = ''currentHash'' then currentHash b
      else None)"

definition set_field :: "string \<Rightarrow> jsval \<Rightarrow> block \<Rightarrow> block" where
  "set_field k v b =
     (if k = ''propertyID'' then b\<lparr>propertyID := v\<rparr>
      else if k = ''owner'' then b\<lparr>owner := v\<rparr>
      else if k = ''description'' then b\<lparr>description := v\<rparr>
      else if k = ''remarks'' then b\<lparr>remarks := v\<rparr>
      else if k = ''action'' then b\<lparr>action := v\<rparr>
      else if k = ''timestamp'' then b\<lparr>timestamp := v\<rparr>
      else if k = ''previousHash'' then b\<lparr>previousHash := v\<rparr>
      else if k = ''signature'' then b\<lparr>signature := v\<rparr>
      else if k = ''currentHash'' then b\<lparr>currentHash := v\<rparr>
      else b)"

definition own_properties :: "string list \<Rightarrow> block \<Rightarrow> (string \<times> jsval) list" where
  "own_properties keys b = map (\<lambda>k. (k, get_field k b)) keys"

definition newline_indent :: "nat \<Rightarrow> string" where
  "newline_indent n = CHR 0x0A # replicate n (CHR '' '')"

fun join_sep :: "string \<Rightarrow> string list \<Rightarrow> string" where
  "join_sep sep [] = []"
| "join_sep sep [x] = x"
| "join_sep sep (x # y # r) = x @ sep @ join_sep sep (y # r)"

definition pretty_member :: "string \<times> string \<Rightarrow> string" where
  "pretty_member kv = JSON_quote (fst kv) @ '': '' @ JSON_quote (snd kv)"

definition pretty_object :: "nat \<Rightarrow> (string \<times> jsval) list \<Rightarrow> string" where
  "pretty_object stepback props =
     (if present props = [] then ''{}''
      else ''{'' @ newline_indent (stepback + 2) @
           join_sep ('','' @ newline_indent (stepback + 2)) (map pretty_member (present props)) @
           newline_indent stepback @ ''}'')"

definition pretty_array :: "string list \<Rightarrow> string" where
  "pretty_array partial =
     (if partial = [] then ''[]''
      else ''['' @ newline_indent 2 @ join_sep ('','' @ newline_indent 2) partial @
           newline_indent 0 @ '']'')"

definition downloadLedger :: "(ref \<Rightarrow> string list) \<Rightarrow> state \<Rightarrow> string" where
  "downloadLedger keys st =
     pretty_array (map (\<lambda>r. pretty_object 2 (own_properties (keys r) (heap st r))) (blockchain st))"

subsection \<open>\<open>loadLedgerFromFile\<close>\<close>

text \<open>
  What \<open>JSON.parse\<close> makes of the text of the file: a syntax error with its message, a
  value that is not an array, or an array. An element of the array is an object
  (\<open>Some\<close>) or \<open>null\<close> (\<open>None\<close>); the program reads no property of any other
  element, a number or a string, which is here the object without fields. The parser
  itself is a parameter of \<open>loadLedgerFromFile\<close>. The objects of a parsed array are new
  objects of the heap.
\<close>

datatype parsed = SyntaxError string | NotArray | ArrayOf "block option list"

fun objects :: "block option list \<Rightarrow> block list" where
  "objects [] = []"
| "objects (None # es) = objects es"
| "objects (Some b # es) = b # objects es"

definition install :: "block list \<Rightarrow> state \<Rightarrow> state" where
  "install bs st =
     st\<lparr>heap := (\<lambda>r. if nextRef st \<le> r \<and> r < nextRef st + length bs
                       then bs ! (r - nextRef st) else heap st r),
        blockchain := [nextRef st ..< nextRef st + length bs],
        nextRef := nextRef st + length bs\<rparr>"

text \<open>
  The outcome of \<open>reader.onload\<close>. \<open>Ledger st'\<close>: the program goes on in the state
  \<open>st'\<close>. \<open>NullInChain elems shown raised\<close>: the assignment \<open>blockchain = parsed\<close> has
  been made with an array \<open>elems\<close> that holds \<open>null\<close>; \<open>renderLedger\<close> has shown the
  blocks before the first \<open>null\<close> (\<open>shown\<close>) and has thrown at \<open>block.propertyID\<close>; the
  \<open>catch\<close> has raised its alert (\<open>raised\<close> are the alerts so far); \<open>updateStats\<close> and the
  validation text were not reached. A chain that holds \<open>null\<close> is not a chain of a
  \<^typ>\<open>state\<close>, so this outcome stands beside the states. \<open>nullMessage\<close> is the
  message of that \<open>TypeError\<close>, which the engine words.
\<close>

datatype imported = Ledger state | NullInChain "block option list" "block list" "string list"

definition loadLedgerFromFile ::
  "(string \<Rightarrow> parsed) \<Rightarrow> string \<Rightarrow> string \<Rightarrow> state \<Rightarrow> imported" where
  "loadLedgerFromFile JSON_parse nullMessage text st =
     (case JSON_parse text of
        SyntaxError message \<Rightarrow> Ledger (alert (''Error reading ledger file: '' @ message) st)
      | NotArray \<Rightarrow> Ledger (alert ''Invalid file format: expected an array.'' st)
      | ArrayOf elems \<Rightarrow>
          if None \<in> set elems then
            NullInChain elems (objects (takeWhile (\<lambda>e. e \<noteq> None) elems))
              (alerts st @ [''Error reading ledger file: '' @ nullMessage])
          else
            Ledger ((updateStats (renderLedger (install (objects elems) st)))
              \<lparr>validationResult := ''Ledger loaded from file. You can now validate the chain.''\<rparr>))"

subsection \<open>\<open>JSON.parse\<close> on ledger files\<close>

text \<open>
  \<open>JSON.parse\<close> of ECMA-262 on the texts that are an array of objects whose keys are
  fields of a block and whose values are strings. White space is space, tab, line feed
  and carriage return. A string ends at the first quote that is not escaped and holds no
  raw control character; after a backslash stands a quote, a backslash, a slash, one of
  the letters \<open>b\<close>, \<open>f\<close>, \<open>n\<close>, \<open>r\<close>, \<open>t\<close>, or \<open>u\<close> and four hexadecimal
  digits of either case. Of two members with one key the later one stands. The result is
  \<open>None\<close> for every other text, JSON or not, and for a \<open>u\<close> escape above 255, which
  is no \<^typ>\<open>char\<close>. The members of an object and the elements of the array are read
  with fuel, and the length of the text is enough of it.
\<close>

definition is_ws :: "char \<Rightarrow> bool" where
  "is_ws c \<longleftrightarrow> c = CHR 0x20 \<or> c = CHR 0x09 \<or> c = CHR 0x0A \<or> c = CHR 0x0D"

definition skip_ws :: "string \<Rightarrow> string" where
  "skip_ws s = dropWhile is_ws s"

fun index_of :: "char \<Rightarrow> string \<Rightarrow> nat option" where
  "index_of c [] = None"
| "index_of c (x # xs) = (if c = x then Some 0 else map_option Suc (index_of c xs))"

definition hexval :: "char \<Rightarrow> nat option" where
  "hexval c =
     (case index_of c ''0123456789abcdef'' of
        Some n \<Rightarrow> Some n
      | None \<Rightarrow> map_option (\<lambda>n. 10 + n) (index_of c ''ABCDEF''))"

definition simple_escape :: "char \<Rightarrow> char option" where
  "simple_escape e =
     (if e = CHR 0x22 then Some (CHR 0x22)
      else if e = CHR 0x5C then Some (CHR 0x5C)
      else if e = CHR ''/'' then Some (CHR ''/'')
      else if e = CHR ''b'' then Some (CHR 0x08)
      else if e = CHR ''f'' then Some (CHR 0x0C)
      else if e = CHR ''n'' then Some (CHR 0x0A)
      else if e = CHR ''r'' then Some (CHR 0x0D)
      else if e = CHR ''t'' then Some (CHR 0x09)
      else None)"

definition unicode_escape :: "string \<Rightarrow> char option" where
  "unicode_escape ds =
     (case map hexval ds of
        [Some h3, Some h2, Some h1, Some h0] \<Rightarrow>
          if h3 = 0 \<and> h2 = 0 then Some (char_of (16 * h1 + h0)) else None
      | _ \<Rightarrow> None)"

definition cons_result :: "char \<Rightarrow> (string \<times> string) option \<Rightarrow> (string \<times> string) option" where
  "cons_result c res = map_option (\<lambda>(s, rest). (c # s, rest)) res"

text \<open>The string whose opening quote has been read, and the text after its closing quote.\<close>

fun unescape :: "string \<Rightarrow> (string \<times> string) option" where
  "unescape [] = None"
| "unescape [c] = (if c = CHR 0x22 then Some ([], []) else None)"
| "unescape (c # e # r) =
     (if c = CHR 0x22 then Some ([], e # r)
      else if c = CHR 0x5C then
        (if e = CHR ''u'' then
           (case unicode_escape (take 4 r) of
              None \<Rightarrow> None
            | Some d \<Rightarrow> cons_result d (unescape (drop 4 r)))
         else
           (case simple_escape e of
              None \<Rightarrow> None
            | Some d \<Rightarrow> cons_result d (unescape r)))
      else if (of_char c :: nat) < 32 then None
      else cons_result c (unescape (e # r)))"

text \<open>The members of an object from its first key on, and the text after its brace.\<close>

fun parse_members :: "nat \<Rightarrow> string \<Rightarrow> ((string \<times> string) list \<times> string) option" where
  "parse_members 0 input = None"
| "parse_members (Suc n) input =
     (case input of
        [] \<Rightarrow> None
      | q # r \<Rightarrow>
          if q \<noteq> CHR 0x22 then None
          else (case unescape r of
             None \<Rightarrow> None
           | Some (k, r1) \<Rightarrow>
               (case skip_ws r1 of
                  [] \<Rightarrow> None
                | colon # r2 \<Rightarrow>
                    if colon \<noteq> CHR '':'' then None
                    else (case skip_ws r2 of
                       [] \<Rightarrow> None
                     | q' # r3 \<Rightarrow>
                         if q' \<noteq> CHR 0x22 then None
                         else (case unescape r3 of
                            None \<Rightarrow> None
                          | Some (v, r4) \<Rightarrow>
                              (case skip_ws r4 of
                                 [] \<Rightarrow> None
                               | d # r5 \<Rightarrow>
                                   if d = CHR ''}'' then Some ([(k, v)], r5)
                                   else if d = CHR '','' then
                                     map_option (\<lambda>(ms, rest). ((k, v) # ms, rest))
                                       (parse_members n (skip_ws r5))
                                   else None))))))"

definition parse_object :: "nat \<Rightarrow> string \<Rightarrow> ((string \<times> string) list \<times> string) option" where
  "parse_object fuel input =
     (case input of
        [] \<Rightarrow> None
      | b # r \<Rightarrow>
          if b \<noteq> CHR ''{'' then None
          else (case skip_ws r of
             [] \<Rightarrow> None
           | d # r' \<Rightarrow> if d = CHR ''}'' then Some ([], r') else parse_members fuel (d # r')))"

fun block_of_members :: "(string \<times> string) list \<Rightarrow> block \<Rightarrow> block option" where
  "block_of_members [] b = Some b"
| "block_of_members ((k, v) # ms) b =
     (if k \<in> set field_names then block_of_members ms (set_field k (Some v) b) else None)"

fun parse_elements :: "nat \<Rightarrow> nat \<Rightarrow> string \<Rightarrow> (block list \<times> string) option" where
  "parse_elements fuel 0 input = None"
| "parse_elements fuel (Suc n) input =
     (case parse_object fuel input of
        None \<Rightarrow> None
      | Some (ms, r1) \<Rightarrow>
          (case block_of_members ms empty_block of
             None \<Rightarrow> None
           | Some b \<Rightarrow>
               (case skip_ws r1 of
                  [] \<Rightarrow> None
                | d # r2 \<Rightarrow>
                    if d = CHR '']'' then Some ([b], r2)
                    else if d = CHR '','' then
                      map_option (\<lambda>(bs, rest). (b # bs, rest))
                        (parse_elements fuel n (skip_ws r2))
                    else None)))"

definition JSON_parse_ledger :: "string \<Rightarrow> block list option" where
  "JSON_parse_ledger text =
     (case skip_ws text of
        [] \<Rightarrow> None
      | b # r \<Rightarrow>
          if b \<noteq> CHR ''['' then None
          else (case skip_ws r of
             [] \<Rightarrow> None
           | d # r' \<Rightarrow>
               if d = CHR '']'' then (if skip_ws r' = [] then Some [] else None)
               else (case parse_elements (length text) (length text) (d # r') of
                  None \<Rightarrow> None
                | Some (bs, rest) \<Rightarrow> if skip_ws rest = [] then Some bs else None)))"

text \<open>
  A \<open>JSON.parse\<close> for \<open>loadLedgerFromFile\<close> that reads a ledger file as above and any
  other text as \<open>other\<close> does.
\<close>

definition JSON_parse_over :: "(string \<Rightarrow> parsed) \<Rightarrow> string \<Rightarrow> parsed" where
  "JSON_parse_over other text =
     (case JSON_parse_ledger text of
        Some bs \<Rightarrow> ArrayOf (map Some bs)
      | None \<Rightarrow> other text)"

section \<open>Notions used in the statements\<close>

text \<open>The block that \<open>addBlock\<close> leaves in the object it was given.\<close>

definition stamped :: "state \<Rightarrow> ref \<Rightarrow> string \<Rightarrow> string \<Rightarrow> block" where
  "stamped st record userSecret now =
     (let b = (heap st record)\<lparr>
            previousHash := (if blockchain st = [] then Some ''0''
                             else currentHash (heap st (last (blockchain st)))),
            timestamp := Some now\<rparr>
      in b\<lparr>signature := Some (signRecord b userSecret),
            currentHash := Some (calculateHash b)\<rparr>)"

text \<open>
  Every block carries its own digest, the signature under the secret of its position, and
  the digest of its predecessor (\<open>"0"\<close> for the first); no object occurs twice.
\<close>

definition sealed_chain :: "state \<Rightarrow> string list \<Rightarrow> bool" where
  "sealed_chain st secrets \<longleftrightarrow>
     length secrets = length (blockchain st) \<and> distinct (blockchain st) \<and>
     (\<forall>i < length (blockchain st).
        currentHash (heap st (blockchain st ! i)) =
          Some (calculateHash (heap st (blockchain st ! i))) \<and>
        signature (heap st (blockchain st ! i)) =
          Some (signRecord (heap st (blockchain st ! i)) (secrets ! i)) \<and>
        previousHash (heap st (blockchain st ! i)) =
          (if i = 0 then Some ''0'' else currentHash (heap st (blockchain st ! (i - 1)))))"

text \<open>Two different messages with the same digest.\<close>

definition collision :: "string \<Rightarrow> string \<Rightarrow> bool" where
  "collision x y \<longleftrightarrow> x \<noteq> y \<and> sha256 x = sha256 y"

text \<open>Tampering: the object at position \<open>k\<close> of the chain is overwritten in place.\<close>

definition tamper :: "nat \<Rightarrow> (block \<Rightarrow> block) \<Rightarrow> state \<Rightarrow> state" where
  "tamper k f st = st\<lparr>heap := (heap st)(blockchain st ! k := f (heap st (blockchain st ! k)))\<rparr>"

definition relink :: "jsval \<Rightarrow> block \<Rightarrow> block" where
  "relink v b = (let b' = b\<lparr>previousHash := v\<rparr> in b'\<lparr>currentHash := Some (calculateHash b')\<rparr>)"

text \<open>Overwriting one field of a block.\<close>

definition set_signature :: "jsval \<Rightarrow> block \<Rightarrow> block" where
  "set_signature v b = b\<lparr>signature := v\<rparr>"

definition set_description :: "jsval \<Rightarrow> block \<Rightarrow> block" where
  "set_description v b = b\<lparr>description := v\<rparr>"

definition set_owner :: "jsval \<Rightarrow> block \<Rightarrow> block" where
  "set_owner v b = b\<lparr>owner := v\<rparr>"

text \<open>The secrets of the calls, and the first position whose secret is not \<open>g\<close>.\<close>

definition secrets_of :: "(ref \<times> string \<times> string) list \<Rightarrow> string list" where
  "secrets_of calls = map (\<lambda>c. fst (snd c)) calls"

fun first_other :: "string \<Rightarrow> string list \<Rightarrow> nat option" where
  "first_other g [] = None"
| "first_other g (s # ss) =
     (if s \<noteq> g then Some 0 else map_option Suc (first_other g ss))"

text \<open>The state \<open>st'\<close> has the blocks of \<open>st\<close> at the positions up to \<open>k\<close>.\<close>

definition agree_upto :: "nat \<Rightarrow> state \<Rightarrow> state \<Rightarrow> bool" where
  "agree_upto k st st' \<longleftrightarrow>
     k < length (blockchain st') \<and>
     (\<forall>i \<le> k. heap st' (blockchain st' ! i) = heap st (blockchain st ! i))"

text \<open>Every object of the chain was created before \<open>nextRef\<close>.\<close>

definition chain_allocated :: "state \<Rightarrow> bool" where
  "chain_allocated st \<longleftrightarrow> (\<forall>r \<in> set (blockchain st). r < nextRef st)"

text \<open>The chain and the alerts after an import.\<close>

definition chain_after :: "imported \<Rightarrow> block option list" where
  "chain_after r =
     (case r of Ledger st \<Rightarrow> map Some (blocks st) | NullInChain elems shown raised \<Rightarrow> elems)"

definition alerts_after :: "imported \<Rightarrow> string list" where
  "alerts_after r =
     (case r of Ledger st \<Rightarrow> alerts st | NullInChain elems shown raised \<Rightarrow> raised)"

text \<open>
  The own properties of an object include every field that holds a value: a field reads
  \<open>undefined\<close> when the object has no such property.
\<close>

definition keys_cover :: "string list \<Rightarrow> block \<Rightarrow> bool" where
  "keys_cover ks b \<longleftrightarrow>
     (\<forall>k \<in> set field_names. get_field k b \<noteq> None \<longrightarrow> k \<in> set ks)"

text \<open>Example data.\<close>

definition blank_heap :: "ref \<Rightarrow> block" where
  "blank_heap = (\<lambda>r. empty_block)"

definition rec0 :: block where
  "rec0 = empty_block\<lparr>propertyID := Some ''P1'', description := Some ''House'',
     owner := Some ''Alice'', action := Some ''Register''\<rparr>"

definition rec1 :: block where
  "rec1 = empty_block\<lparr>propertyID := Some ''P1'', owner := Some ''Bob'',
     action := Some ''Transfer'', remarks := Some ''sold''\<rparr>"

definition two_records :: "ref \<Rightarrow> block" where
  "two_records = blank_heap(0 := rec0, 1 := rec1)"

definition day1 :: string where
  "day1 = ''2026-01-01T00:00:00.000Z''"

definition day2 :: string where
  "day2 = ''2026-01-02T00:00:00.000Z''"



section \<open>What each operation leaves alone\<close>

lemma renderLedger_frame [simp]:
  "heap (renderLedger st) = heap st" "blockchain (renderLedger st) = blockchain st"
  "nextRef (renderLedger st) = nextRef st"
  by (simp_all add: renderLedger_def)

lemma updateStats_frame [simp]:
  "heap (updateStats st) = heap st" "blockchain (updateStats st) = blockchain st"
  "nextRef (updateStats st) = nextRef st"
  by (simp_all add: updateStats_def Let_def)

lemma showTimeline_frame [simp]:
  "heap (showTimeline pid st) = heap st" "blockchain (showTimeline pid st) = blockchain st"
  "nextRef (showTimeline pid st) = nextRef st"
  by (simp_all add: showTimeline_def Let_def)

lemma alert_frame [simp]:
  "heap (alert msg st) = heap st" "blockchain (alert msg st) = blockchain st"
  "nextRef (alert msg st) = nextRef st"
  by (simp_all add: alert_def)

section \<open>Digest and signature read only some fields\<close>

lemma calculateHash_signature [simp]: "calculateHash (b\<lparr>signature := x\<rparr>) = calculateHash b"
  by (simp add: calculateHash_def dataForHash_def)

lemma calculateHash_currentHash [simp]: "calculateHash (b\<lparr>currentHash := x\<rparr>) = calculateHash b"
  by (simp add: calculateHash_def dataForHash_def)

lemma signRecord_signature [simp]: "signRecord (b\<lparr>signature := x\<rparr>) s = signRecord b s"
  by (simp add: signRecord_def toSign_def)

lemma signRecord_currentHash [simp]: "signRecord (b\<lparr>currentHash := x\<rparr>) s = signRecord b s"
  by (simp add: signRecord_def toSign_def)

lemma signRecord_previousHash [simp]: "signRecord (b\<lparr>previousHash := x\<rparr>) s = signRecord b s"
  by (simp add: signRecord_def toSign_def)

section \<open>\<open>addBlock\<close> on the heap\<close>

lemma blockchain_addBlock [simp]:
  "blockchain (addBlock record userSecret now st) = blockchain st @ [record]"
  by (simp add: addBlock_def Let_def)

lemma nextRef_addBlock [simp]:
  "nextRef (addBlock record userSecret now st) = nextRef st"
  by (simp add: addBlock_def Let_def)

lemma heap_addBlock:
  "heap (addBlock record userSecret now st) =
     (heap st)(record := stamped st record userSecret now)"
  by (simp add: addBlock_def Let_def stamped_def)

lemma heap_addBlock_other [simp]:
  "x \<noteq> record \<Longrightarrow> heap (addBlock record userSecret now st) x = heap st x"
  by (simp add: heap_addBlock)

lemma heap_addBlock_same [simp]:
  "heap (addBlock record userSecret now st) record = stamped st record userSecret now"
  by (simp add: heap_addBlock)

lemma stamped_sealed:
  "currentHash (stamped st r s t) = Some (calculateHash (stamped st r s t))"
  "signature (stamped st r s t) = Some (signRecord (stamped st r s t) s)"
  by (simp_all add: stamped_def Let_def)

lemma stamped_previousHash:
  "previousHash (stamped st r s t) =
     (if blockchain st = [] then Some ''0'' else currentHash (heap st (last (blockchain st))))"
  by (simp add: stamped_def Let_def)

lemma alerts_addBlock [simp]: "alerts (addBlock record userSecret now st) = alerts st"
  by (simp add: addBlock_def Let_def updateStats_def renderLedger_def)

lemma alerts_init [simp]: "alerts (init h) = []"
  by (simp add: init_def)

lemma heap_init [simp]: "heap (init h) = h"
  by (simp add: init_def)

lemma blockchain_init [simp]: "blockchain (init h) = []"
  by (simp add: init_def)

lemma build_snoc: "build (calls @ [(r, s, t)]) st = addBlock r s t (build calls st)"
  by (induction calls arbitrary: st) auto

lemma blockchain_build: "blockchain (build calls st) = blockchain st @ map fst calls"
  by (induction calls arbitrary: st) auto

section \<open>The validation loop\<close>

lemma validate_from_pass:
  "\<forall>j. i \<le> j \<and> j < length (blockchain st) \<longrightarrow> check_block st s j = None
   \<Longrightarrow> validate_from st s i = ChainValid"
proof (induction st s i rule: validate_from.induct)
  case (1 st s i)
  show ?case
  proof (cases "i < length (blockchain st)")
    case True
    with 1 show ?thesis by (subst validate_from.simps) simp
  next
    case False
    then show ?thesis by (subst validate_from.simps) simp
  qed
qed

lemma validate_from_first_failure:
  "\<lbrakk>i \<le> k; k < length (blockchain st); check_block st s k = Some e;
    \<forall>j. i \<le> j \<and> j < k \<longrightarrow> check_block st s j = None\<rbrakk>
   \<Longrightarrow> validate_from st s i = e"
proof (induction st s i rule: validate_from.induct)
  case (1 st s i)
  show ?case
  proof (cases "i = k")
    case True
    with 1 show ?thesis by (subst validate_from.simps) simp
  next
    case False
    with 1 have lt: "i < k" and c: "check_block st s i = None" by auto
    with 1 have "validate_from st s (Suc i) = e" by auto
    with lt c 1(3) show ?thesis by (subst validate_from.simps) simp
  qed
qed

lemma validateChain_first_failure:
  "\<lbrakk>k < length (blockchain st); check_block st s k = Some e;
    \<forall>j < k. check_block st s j = None\<rbrakk>
   \<Longrightarrow> validateChain s st = e"
  using validate_from_first_failure [of 0 k st s e] by (auto simp add: validateChain_def)

lemma validateChain_pass:
  "\<lbrakk>blockchain st \<noteq> []; \<forall>j < length (blockchain st). check_block st s j = None\<rbrakk>
   \<Longrightarrow> validateChain s st = ChainValid"
  using validate_from_pass [of 0 st s] by (simp add: validateChain_def)

section \<open>Chains built with one new object per call\<close>

lemma sealed_chain_init: "sealed_chain (init h) []"
  by (simp add: sealed_chain_def init_def)

lemma sealed_chain_addBlock:
  assumes inv: "sealed_chain st secrets" and fresh: "r \<notin> set (blockchain st)"
  shows "sealed_chain (addBlock r s t st) (secrets @ [s])"
proof -
  let ?c = "blockchain st" and ?st' = "addBlock r s t st"
  from inv have len: "length secrets = length ?c" and dist: "distinct ?c"
    by (simp_all add: sealed_chain_def)
  have keep: "heap ?st' (?c ! i) = heap st (?c ! i)" if "i < length ?c" for i
    using fresh that by (metis heap_addBlock_other nth_mem)
  have "\<forall>i < length (?c @ [r]).
        currentHash (heap ?st' ((?c @ [r]) ! i)) = Some (calculateHash (heap ?st' ((?c @ [r]) ! i))) \<and>
        signature (heap ?st' ((?c @ [r]) ! i)) = Some (signRecord (heap ?st' ((?c @ [r]) ! i)) ((secrets @ [s]) ! i)) \<and>
        previousHash (heap ?st' ((?c @ [r]) ! i)) =
          (if i = 0 then Some ''0'' else currentHash (heap ?st' ((?c @ [r]) ! (i - 1))))"
  proof (intro allI impI)
    fix i assume "i < length (?c @ [r])"
    then consider (old) "i < length ?c" | (new) "i = length ?c" by fastforce
    then show "currentHash (heap ?st' ((?c @ [r]) ! i)) = Some (calculateHash (heap ?st' ((?c @ [r]) ! i))) \<and>
        signature (heap ?st' ((?c @ [r]) ! i)) = Some (signRecord (heap ?st' ((?c @ [r]) ! i)) ((secrets @ [s]) ! i)) \<and>
        previousHash (heap ?st' ((?c @ [r]) ! i)) =
          (if i = 0 then Some ''0'' else currentHash (heap ?st' ((?c @ [r]) ! (i - 1))))"
    proof cases
      case old
      then have "i - 1 < length ?c" by simp
      with old inv len show ?thesis
        using keep [of i] keep [of "i - 1"]
        by (simp add: sealed_chain_def nth_append)
    next
      case new
      show ?thesis
      proof (cases "?c = []")
        case True
        with new len show ?thesis
          by (simp add: stamped_sealed stamped_previousHash)
      next
        case False
        then have "length ?c - 1 < length ?c" by simp
        from keep [OF this] False new len show ?thesis
          by (simp add: stamped_sealed stamped_previousHash nth_append last_conv_nth)
      qed
    qed
  qed
  with len dist fresh show ?thesis
    by (simp add: sealed_chain_def)
qed

lemma sealed_chain_build:
  "distinct (map fst calls) \<Longrightarrow> sealed_chain (build calls (init h)) (secrets_of calls)"
proof (induction calls rule: rev_induct)
  case Nil
  show ?case by (simp add: sealed_chain_init secrets_of_def)
next
  case (snoc c calls)
  obtain r s t where c: "c = (r, s, t)" by (cases c)
  from snoc.prems c have d: "distinct (map fst calls)" and f: "r \<notin> fst ` set calls" by auto
  have "r \<notin> set (blockchain (build calls (init h)))"
    using f by (simp add: blockchain_build init_def)
  with snoc.IH [OF d] show ?case
    by (simp add: c build_snoc sealed_chain_addBlock secrets_of_def)
qed

lemma check_block_sealed:
  assumes "sealed_chain st secrets" "i < length (blockchain st)"
  shows "check_block st g i =
     (if signRecord (heap st (blockchain st ! i)) g =
         signRecord (heap st (blockchain st ! i)) (secrets ! i)
      then None else Some (SignatureInvalid i))"
  using assms by (auto simp add: sealed_chain_def check_block_def Let_def)

lemma length_build [simp]: "length (blockchain (build calls (init h))) = length calls"
  by (simp add: blockchain_build init_def)

section \<open>Tampering with one block\<close>

lemma blockchain_tamper [simp]: "blockchain (tamper k f st) = blockchain st"
  by (simp add: tamper_def)

lemma heap_tamper_at:
  "heap (tamper k f st) (blockchain st ! k) = f (heap st (blockchain st ! k))"
  by (simp add: tamper_def)

lemma heap_tamper_other:
  "\<lbrakk>distinct (blockchain st); j < length (blockchain st); k < length (blockchain st); j \<noteq> k\<rbrakk>
   \<Longrightarrow> heap (tamper k f st) (blockchain st ! j) = heap st (blockchain st ! j)"
  by (simp add: tamper_def nth_eq_iff_index_eq)

lemma check_block_agree:
  assumes "heap st' (blockchain st' ! i) = heap st (blockchain st ! i)"
    and "0 < i \<Longrightarrow> heap st' (blockchain st' ! (i - 1)) = heap st (blockchain st ! (i - 1))"
  shows "check_block st' s i = check_block st s i"
  using assms by (cases "0 < i") (simp_all add: check_block_def Let_def)

lemma check_block_before_tamper:
  assumes "sealed_chain st secrets" "k < length (blockchain st)" "j < k"
  shows "check_block (tamper k f st) g j = check_block st g j"
proof (rule check_block_agree)
  from assms have d: "distinct (blockchain st)" by (simp add: sealed_chain_def)
  from assms show "heap (tamper k f st) (blockchain (tamper k f st) ! j) = heap st (blockchain st ! j)"
    using heap_tamper_other [OF d, of j k f] by simp
  assume "0 < j"
  with assms show "heap (tamper k f st) (blockchain (tamper k f st) ! (j - 1)) = heap st (blockchain st ! (j - 1))"
    using heap_tamper_other [OF d, of "j - 1" k f] by simp
qed

lemma check_block_single_secret:
  assumes "sealed_chain st secrets" "j < length (blockchain st)" "secrets ! j = s"
  shows "check_block st s j = None"
  using check_block_sealed [OF assms(1,2), of s] assms(3) by simp

lemma secrets_of_single:
  "\<forall>c \<in> set calls. fst (snd c) = s \<Longrightarrow> j < length calls \<Longrightarrow> secrets_of calls ! j = s"
  by (simp add: secrets_of_def)

lemma calculateHash_relink: "calculateHash (relink v b) = calculateHash (b\<lparr>previousHash := v\<rparr>)"
  by (simp add: relink_def Let_def)

lemma relink_fields [simp]:
  "currentHash (relink v b) = Some (calculateHash (b\<lparr>previousHash := v\<rparr>))"
  "previousHash (relink v b) = v"
  "signature (relink v b) = signature b"
  by (simp_all add: relink_def Let_def)

lemma signRecord_relink [simp]: "signRecord (relink v b) s = signRecord b s"
  by (simp add: relink_def Let_def)

lemma agree_upto_refl: "k < length (blockchain st) \<Longrightarrow> agree_upto k st st"
  by (simp add: agree_upto_def)

lemma first_other_Some:
  "first_other g ss = Some k \<Longrightarrow> k < length ss \<and> ss ! k \<noteq> g \<and> (\<forall>j < k. ss ! j = g)"
proof (induction ss arbitrary: k)
  case Nil
  then show ?case by simp
next
  case (Cons s ss)
  show ?case
  proof (cases "s = g")
    case False
    with Cons.prems show ?thesis by simp
  next
    case True
    with Cons.prems obtain k' where k': "first_other g ss = Some k'" "k = Suc k'"
      by auto
    from Cons.IH [OF k'(1)] True k'(2) show ?thesis
      by (auto simp add: nth_Cons split: nat.splits)
  qed
qed

lemma length_secrets_of [simp]: "length (secrets_of calls) = length calls"
  by (simp add: secrets_of_def)

lemma toSign_inject: "toSign b g = toSign b s \<longleftrightarrow> g = s"
  by (simp add: toSign_def)

section \<open>The frame of the operations\<close>

lemma heap_addBlock_member:
  "\<lbrakk>record \<notin> set (blockchain st); x \<in> set (blockchain st)\<rbrakk>
   \<Longrightarrow> heap (addBlock record userSecret now st) x = heap st x"
  by (cases "x = record") simp_all

lemma blocks_addBlock_fresh:
  assumes "record \<notin> set (blockchain st)"
  shows "blocks (addBlock record userSecret now st) =
           blocks st @ [stamped st record userSecret now]"
  using assms by (simp add: blocks_def heap_addBlock_member)

lemma new_object_frame [simp]:
  "blockchain (new_object b st) = blockchain st"
  "nextRef (new_object b st) = Suc (nextRef st)"
  "r \<noteq> nextRef st \<Longrightarrow> heap (new_object b st) r = heap st r"
  "heap (new_object b st) (nextRef st) = b"
  by (simp_all add: new_object_def)

lemma blocks_new_object:
  "chain_allocated st \<Longrightarrow> blocks (new_object b st) = blocks st"
  by (auto simp add: blocks_def chain_allocated_def)

lemma blocks_alert [simp]: "blocks (alert msg st) = blocks st"
  by (simp add: blocks_def)

lemma addBlock_new_object_prefix:
  assumes "chain_allocated st"
  shows "take (length (blocks st)) (blocks (addBlock (nextRef st) s t (new_object b st))) = blocks st"
proof -
  have "nextRef st \<notin> set (blockchain (new_object b st))"
    using assms by (auto simp add: chain_allocated_def)
  from blocks_addBlock_fresh [OF this] show ?thesis
    using assms by (simp add: blocks_new_object)
qed

lemma registerProperty_prefix:
  "chain_allocated st \<Longrightarrow>
   take (length (blocks st)) (blocks (registerProperty pid desc own sec now st)) = blocks st"
  by (simp add: registerProperty_def addBlock_new_object_prefix)

lemma transferProperty_prefix:
  "chain_allocated st \<Longrightarrow>
   take (length (blocks st)) (blocks (transferProperty pid own rem sec now st)) = blocks st"
  by (simp add: transferProperty_def addBlock_new_object_prefix)

lemma chain_allocated_init: "chain_allocated (init h)"
  by (simp add: chain_allocated_def)

lemma chain_allocated_alert [simp]: "chain_allocated (alert msg st) = chain_allocated st"
  by (simp add: chain_allocated_def)

lemma chain_allocated_addBlock_new:
  "chain_allocated st \<Longrightarrow> chain_allocated (addBlock (nextRef st) s t (new_object b st))"
  by (auto simp add: chain_allocated_def)

lemma chain_allocated_registerProperty:
  "chain_allocated st \<Longrightarrow> chain_allocated (registerProperty pid desc own sec now st)"
  by (simp add: registerProperty_def chain_allocated_addBlock_new)

lemma chain_allocated_transferProperty:
  "chain_allocated st \<Longrightarrow> chain_allocated (transferProperty pid own rem sec now st)"
  by (simp add: transferProperty_def chain_allocated_addBlock_new)

lemma chain_allocated_install: "chain_allocated (install bs st)"
  by (auto simp add: chain_allocated_def install_def)

lemma chain_allocated_loadLedgerFromFile:
  "\<lbrakk>chain_allocated st; loadLedgerFromFile P m text st = Ledger st'\<rbrakk> \<Longrightarrow> chain_allocated st'"
  using chain_allocated_install
  by (auto simp add: loadLedgerFromFile_def chain_allocated_def split: parsed.splits if_splits)

lemma validateChain_click_frame [simp]:
  "heap (validateChain_click g st) = heap st"
  "blockchain (validateChain_click g st) = blockchain st"
  by (simp_all add: validateChain_click_def)

section \<open>Import\<close>


lemma blocks_install: "blocks (install bs st) = bs"
  by (auto simp add: blocks_def install_def intro!: nth_equalityI)

lemma blocks_views [simp]:
  "blocks (updateStats st) = blocks st" "blocks (renderLedger st) = blocks st"
  "blocks (st\<lparr>validationResult := x\<rparr>) = blocks st"
  by (simp_all add: blocks_def)

section \<open>The canonical encoding is injective\<close>

lemma hexdigit_inject:
  assumes "m < 16" "n < 16" "hexdigit m = hexdigit n"
  shows "m = n"
proof -
  have d: "distinct ''0123456789abcdef''" by simp
  have l: "length ''0123456789abcdef'' = 16" by simp
  from assms have "''0123456789abcdef'' ! m = ''0123456789abcdef'' ! n"
    by (simp add: hexdigit_def)
  with nth_eq_iff_index_eq [OF d, of m n] assms(1,2) l show ?thesis by simp
qed

lemma hex_pair_inject:
  assumes "hexdigit (m div 16) = hexdigit (n div 16)" "hexdigit (m mod 16) = hexdigit (n mod 16)"
    and "m < 256" "n < 256"
  shows "m = n"
proof -
  have "m div 16 = n div 16"
    using assms by (intro hexdigit_inject) auto
  moreover have "m mod 16 = n mod 16"
    using assms by (intro hexdigit_inject) auto
  ultimately show ?thesis by (metis div_mult_mod_eq)
qed

lemma of_char_lt_256: "(of_char c :: nat) < 256"
  by (metis of_char_mod_256 mod_less_divisor zero_less_numeral)

lemma hex_pair_char:
  assumes "hexdigit (of_char c div 16) = hexdigit (of_char d div 16)"
    and "hexdigit (of_char c mod 16) = hexdigit (of_char d mod 16)"
  shows "c = d"
proof -
  have "(of_char c :: nat) = of_char d"
    using assms of_char_lt_256 [of c] of_char_lt_256 [of d] by (rule hex_pair_inject)
  then show ?thesis by simp
qed

lemma json_escape_head: "json_escape c \<noteq> [] \<and> hd (json_escape c) \<noteq> CHR 0x22"
  by (simp add: json_escape_def)

lemma json_escape_unique:
  "json_escape c @ r = json_escape d @ r' \<Longrightarrow> c = d \<and> r = r'"
  by (auto simp add: json_escape_def split: if_splits dest: hex_pair_char)

lemma json_escape_Cons: "\<exists>x xs. json_escape c = x # xs \<and> x \<noteq> CHR 0x22"
  using json_escape_head [of c] by (cases "json_escape c") auto

lemma escaped_unique:
  "concat (map json_escape s) @ CHR 0x22 # r = concat (map json_escape s') @ CHR 0x22 # r'
   \<Longrightarrow> s = s' \<and> r = r'"
proof (induction s arbitrary: s')
  case Nil
  show ?case
  proof (cases s')
    case Nil
    with Nil.prems show ?thesis by simp
  next
    case (Cons d ds)
    obtain x xs where "json_escape d = x # xs" "x \<noteq> CHR 0x22"
      using json_escape_Cons by blast
    with Nil.prems Cons show ?thesis by simp
  qed
next
  case (Cons c cs)
  show ?case
  proof (cases s')
    case Nil
    obtain x xs where "json_escape c = x # xs" "x \<noteq> CHR 0x22"
      using json_escape_Cons by blast
    with Cons.prems Nil show ?thesis by simp
  next
    case (Cons d ds)
    with Cons.prems have
      "json_escape c @ (concat (map json_escape cs) @ CHR 0x22 # r) =
       json_escape d @ (concat (map json_escape ds) @ CHR 0x22 # r')"
      by simp
    from json_escape_unique [OF this] have "c = d"
      and "concat (map json_escape cs) @ CHR 0x22 # r = concat (map json_escape ds) @ CHR 0x22 # r'"
      by simp_all
    with Cons.IH [of ds] Cons show ?thesis by simp
  qed
qed

lemma JSON_quote_unique:
  "JSON_quote s @ r = JSON_quote s' @ r' \<Longrightarrow> s = s' \<and> r = r'"
  using escaped_unique [of s r s' r'] by (simp add: JSON_quote_def)

lemma JSON_quote_Cons: "JSON_quote s = CHR 0x22 # concat (map json_escape s) @ [CHR 0x22]"
  by (simp add: JSON_quote_def)

lemma JSON_member_unique:
  assumes "JSON_member m @ r = JSON_member m' @ r'"
  shows "m = m' \<and> r = r'"
proof -
  from assms have
    "JSON_quote (fst m) @ ('':'' @ JSON_quote (snd m) @ r) =
     JSON_quote (fst m') @ ('':'' @ JSON_quote (snd m') @ r')"
    by (simp add: JSON_member_def)
  from JSON_quote_unique [OF this] have k: "fst m = fst m'"
    and "JSON_quote (snd m) @ r = JSON_quote (snd m') @ r'"
    by simp_all
  from JSON_quote_unique [OF this(2)] k show ?thesis
    by (simp add: prod_eq_iff)
qed

lemma JSON_member_Cons: "\<exists>xs. JSON_member m = CHR 0x22 # xs"
  by (simp add: JSON_member_def JSON_quote_def)

lemma join_comma_Cons:
  "join_comma (x # xs) = x @ (if xs = [] then [] else '','' @ join_comma xs)"
  by (cases xs) simp_all

lemma members_unique:
  "join_comma (map JSON_member ms) @ ''}'' @ r = join_comma (map JSON_member ms') @ ''}'' @ r'
   \<Longrightarrow> ms = ms' \<and> r = r'"
proof (induction ms arbitrary: ms')
  case Nil
  show ?case
  proof (cases ms')
    case Nil
    with Nil.prems show ?thesis by simp
  next
    case (Cons m' rest')
    obtain xs where "JSON_member m' = CHR 0x22 # xs" using JSON_member_Cons by blast
    with Nil.prems Cons show ?thesis by (simp add: join_comma_Cons)
  qed
next
  case (Cons m rest)
  show ?case
  proof (cases ms')
    case Nil
    obtain xs where "JSON_member m = CHR 0x22 # xs" using JSON_member_Cons by blast
    with Cons.prems Nil show ?thesis by (simp add: join_comma_Cons)
  next
    case (Cons m' rest')
    let ?tl = "\<lambda>xs r. (if xs = [] then [] else '','' @ join_comma (map JSON_member xs)) @ ''}'' @ r"
    from Cons.prems Cons have
      "JSON_member m @ ?tl rest r = JSON_member m' @ ?tl rest' r'"
      by (simp add: join_comma_Cons)
    from JSON_member_unique [OF this] have m: "m = m'" and tl: "?tl rest r = ?tl rest' r'"
      by simp_all
    show ?thesis
    proof (cases "rest = []")
      case True
      with tl have "rest' = []" by (auto split: if_splits)
      with True tl m Cons show ?thesis by simp
    next
      case False
      with tl have ne: "rest' \<noteq> []" by (auto split: if_splits)
      with False tl have
        "join_comma (map JSON_member rest) @ ''}'' @ r = join_comma (map JSON_member rest') @ ''}'' @ r'"
        by simp
      from Cons.IH [OF this] m Cons show ?thesis by simp
    qed
  qed
qed

lemma JSON_stringify_present:
  "JSON_stringify p = JSON_stringify q \<Longrightarrow> present p = present q"
  using members_unique [of "present p" "[]" "present q" "[]"] by (simp add: JSON_stringify_def)

lemma present_keys: "fst ` set (present p) \<subseteq> fst ` set p"
  by (induction p rule: present.induct) auto

lemma present_unique:
  "\<lbrakk>present p = present q; map fst p = map fst q; distinct (map fst p)\<rbrakk> \<Longrightarrow> p = q"
proof (induction p arbitrary: q)
  case Nil
  then show ?case by simp
next
  case (Cons a p)
  obtain k v where a: "a = (k, v)" by (cases a)
  from Cons.prems(2) a obtain w q' where q: "q = (k, w) # q'" and keys: "map fst p = map fst q'"
    by (cases q) auto
  from Cons.prems(3) a have fresh: "k \<notin> fst ` set p" and d: "distinct (map fst p)" by auto
  from fresh keys have fresh': "k \<notin> fst ` set q'" by (metis set_map)
  have np: "(k, x) \<notin> set (present p)" for x
    using present_keys [of p] fresh by force
  have nq: "(k, x) \<notin> set (present q')" for x
    using present_keys [of q'] fresh' by force
  show ?case
  proof (cases v)
    case None
    show ?thesis
    proof (cases w)
      case None
      with \<open>v = None\<close> Cons.prems(1) a q have "present p = present q'" by simp
      from Cons.IH [OF this keys d] a q None \<open>v = None\<close> show ?thesis by simp
    next
      case (Some y)
      with \<open>v = None\<close> Cons.prems(1) a q have "present p = (k, y) # present q'" by simp
      with np [of y] show ?thesis by simp
    qed
  next
    case (Some x)
    show ?thesis
    proof (cases w)
      case None
      with Some Cons.prems(1) a q have "(k, x) # present p = present q'" by simp
      with nq [of x] show ?thesis by (metis list.set_intros(1))
    next
      case (Some y)
      with \<open>v = Some x\<close> Cons.prems(1) a q have "x = y" "present p = present q'" by simp_all
      from Cons.IH [OF this(2) keys d] this(1) a q Some \<open>v = Some x\<close> show ?thesis by simp
    qed
  qed
qed

lemma dataForHash_inject:
  "JSON_stringify (dataForHash a) = JSON_stringify (dataForHash b) \<Longrightarrow> dataForHash a = dataForHash b"
proof -
  assume "JSON_stringify (dataForHash a) = JSON_stringify (dataForHash b)"
  then have "present (dataForHash a) = present (dataForHash b)" by (rule JSON_stringify_present)
  then show ?thesis
    by (rule present_unique) (simp_all add: dataForHash_def)
qed


section \<open>Reading back what \<open>downloadLedger\<close> wrote\<close>

lemma skip_ws_keep: "\<not> is_ws c \<Longrightarrow> skip_ws (c # x) = c # x"
  by (simp add: skip_ws_def)

lemma skip_ws_spaces: "skip_ws (replicate n (CHR '' '') @ x) = skip_ws x"
  by (induction n) (simp_all add: skip_ws_def is_ws_def)

lemma skip_ws_newline_indent: "skip_ws (newline_indent n @ x) = skip_ws x"
  using skip_ws_spaces [of n x] by (simp add: newline_indent_def skip_ws_def is_ws_def)

lemma hexval_hexdigit: "d < 16 \<Longrightarrow> hexval (hexdigit d) = Some d"
proof -
  assume "d < 16"
  then have "d = 0 \<or> d = 1 \<or> d = 2 \<or> d = 3 \<or> d = 4 \<or> d = 5 \<or> d = 6 \<or> d = 7 \<or>
      d = 8 \<or> d = 9 \<or> d = 10 \<or> d = 11 \<or> d = 12 \<or> d = 13 \<or> d = 14 \<or> d = 15"
    by presburger
  then show ?thesis
    by (elim disjE) (simp_all add: hexval_def hexdigit_def)
qed

lemma hexval_zero: "hexval (CHR ''0'') = Some 0"
  by (simp add: hexval_def)

lemma unicode_escape_hex:
  "n < 256 \<Longrightarrow>
   unicode_escape [CHR ''0'', CHR ''0'', hexdigit (n div 16), hexdigit (n mod 16)] = Some (char_of n)"
  by (simp add: unicode_escape_def hexval_zero hexval_hexdigit)

lemma unescape_step:
  assumes "rest \<noteq> []"
  shows "unescape (json_escape c @ rest) = cons_result c (unescape rest)"
proof -
  obtain e r where rest: "rest = e # r" using assms by (cases rest) auto
  have u: "unicode_escape [CHR ''0'', CHR ''0'', hexdigit (of_char c div 16), hexdigit (of_char c mod 16)]
      = Some c"
    using unicode_escape_hex [of "of_char c"] of_char_lt_256 [of c] by simp
  show ?thesis
    unfolding json_escape_def rest
    by (simp add: simple_escape_def u)
qed

lemma unescape_escaped:
  "unescape (concat (map json_escape s) @ CHR 0x22 # r) = Some (s, r)"
proof (induction s)
  case Nil
  show ?case by (cases r) simp_all
next
  case (Cons c s)
  have "unescape (json_escape c @ (concat (map json_escape s) @ CHR 0x22 # r))
      = cons_result c (unescape (concat (map json_escape s) @ CHR 0x22 # r))"
    by (rule unescape_step) simp
  with Cons show ?case by (simp add: cons_result_def)
qed

lemma pretty_member_expand:
  "pretty_member (k, v) @ x =
     CHR 0x22 # concat (map json_escape k) @ CHR 0x22 # CHR '':'' # CHR '' '' # CHR 0x22 #
       concat (map json_escape v) @ CHR 0x22 # x"
  by (simp add: pretty_member_def JSON_quote_def)

lemma parse_member_step:
  "parse_members (Suc n) (pretty_member (k, v) @ x) =
     (case skip_ws x of
        [] \<Rightarrow> None
      | d # r5 \<Rightarrow>
          if d = CHR ''}'' then Some ([(k, v)], r5)
          else if d = CHR '','' then
            map_option (\<lambda>(ms, rest). ((k, v) # ms, rest)) (parse_members n (skip_ws r5))
          else None)"
  by (simp add: pretty_member_expand unescape_escaped skip_ws_def is_ws_def)

lemma skip_ws_pretty_member: "skip_ws (pretty_member m @ x) = pretty_member m @ x"
  by (cases m) (simp add: pretty_member_expand skip_ws_def is_ws_def)

lemma join_sep_Cons:
  "join_sep sep (x # xs) = x @ (if xs = [] then [] else sep @ join_sep sep xs)"
  by (cases xs) simp_all

lemma skip_ws_close: "skip_ws (newline_indent j @ CHR ''}'' # r) = CHR ''}'' # r"
  by (simp add: skip_ws_newline_indent skip_ws_keep is_ws_def)

lemma skip_ws_comma: "skip_ws (CHR '','' # x) = CHR '','' # x"
  by (simp add: skip_ws_keep is_ws_def)

lemma parse_members_joined:
  "\<lbrakk>ms \<noteq> []; length ms \<le> n\<rbrakk> \<Longrightarrow>
   parse_members n
     (join_sep ('','' @ newline_indent i) (map pretty_member ms) @ newline_indent j @ ''}'' @ r)
   = Some (ms, r)"
proof (induction ms arbitrary: n)
  case Nil
  then show ?case by simp
next
  case (Cons m ms)
  obtain k v where m: "m = (k, v)" by (cases m)
  from Cons.prems obtain n' where n: "n = Suc n'" and le: "length ms \<le> n'"
    by (cases n) auto
  show ?case
  proof (cases "ms = []")
    case True
    then show ?thesis
      by (simp add: n m parse_member_step skip_ws_close del: parse_members.simps)
  next
    case False
    let ?rest = "join_sep ('','' @ newline_indent i) (map pretty_member ms) @
        newline_indent j @ ''}'' @ r"
    have tail: "parse_members n' ?rest = Some (ms, r)"
      using Cons.IH [OF False le] .
    obtain m' ms' where ms: "ms = m' # ms'" using False by (cases ms) auto
    have "skip_ws ?rest = ?rest"
      by (simp add: ms join_sep_Cons skip_ws_pretty_member del: join_sep.simps)
    then have start: "skip_ws (newline_indent i @ ?rest) = ?rest"
      by (simp add: skip_ws_newline_indent)
    have "parse_members (Suc n') (pretty_member (k, v) @ ('','' @ newline_indent i @ ?rest))
        = map_option (\<lambda>(ms, rest). ((k, v) # ms, rest)) (parse_members n' (skip_ws (newline_indent i @ ?rest)))"
      unfolding parse_member_step by (simp add: skip_ws_comma)
    also have "\<dots> = Some ((k, v) # ms, r)"
      unfolding start tail by simp
    finally show ?thesis
      using False by (simp add: n m join_sep_Cons del: join_sep.simps parse_members.simps)
  qed
qed

lemma parse_object_pretty:
  assumes "length (present props) \<le> fuel"
  shows "parse_object fuel (pretty_object j props @ r) = Some (present props, r)"
proof (cases "present props = []")
  case True
  then show ?thesis
    by (simp add: parse_object_def pretty_object_def skip_ws_def is_ws_def)
next
  case False
  then obtain m ms where p: "present props = m # ms" by (cases "present props") auto
  let ?body = "join_sep ('','' @ newline_indent (j + 2)) (map pretty_member (present props)) @
      newline_indent j @ ''}'' @ r"
  have body: "parse_members fuel ?body = Some (present props, r)"
    using parse_members_joined [OF False assms] .
  have start: "skip_ws (newline_indent (j + 2) @ ?body) = ?body"
    unfolding skip_ws_newline_indent
    by (simp add: p join_sep_Cons skip_ws_pretty_member del: join_sep.simps)
  obtain k v where m: "m = (k, v)" by (cases m)
  have hd: "\<exists>x. ?body = CHR 0x22 # x"
    by (simp add: p m join_sep_Cons pretty_member_expand del: join_sep.simps)
  then obtain x where x: "?body = CHR 0x22 # x" by blast
  have "parse_object fuel (''{'' @ newline_indent (j + 2) @ ?body) = parse_members fuel ?body"
    unfolding parse_object_def using start x by (simp del: parse_members.simps)
  with body False show ?thesis
    by (simp add: pretty_object_def)
qed

lemma get_field_update:
  "get_field k (b\<lparr>propertyID := v\<rparr>) = (if k = ''propertyID'' then v else get_field k b)"
  "get_field k (b\<lparr>owner := v\<rparr>) = (if k = ''owner'' then v else get_field k b)"
  "get_field k (b\<lparr>description := v\<rparr>) = (if k = ''description'' then v else get_field k b)"
  "get_field k (b\<lparr>remarks := v\<rparr>) = (if k = ''remarks'' then v else get_field k b)"
  "get_field k (b\<lparr>action := v\<rparr>) = (if k = ''action'' then v else get_field k b)"
  "get_field k (b\<lparr>timestamp := v\<rparr>) = (if k = ''timestamp'' then v else get_field k b)"
  "get_field k (b\<lparr>previousHash := v\<rparr>) = (if k = ''previousHash'' then v else get_field k b)"
  "get_field k (b\<lparr>signature := v\<rparr>) = (if k = ''signature'' then v else get_field k b)"
  "get_field k (b\<lparr>currentHash := v\<rparr>) = (if k = ''currentHash'' then v else get_field k b)"
  by (simp_all add: get_field_def)

lemma get_set_field:
  assumes "k \<in> set field_names"
  shows "get_field k' (set_field k v b) = (if k' = k then v else get_field k' b)"
proof -
  from assms have "k = ''propertyID'' \<or> k = ''owner'' \<or> k = ''description'' \<or> k = ''remarks'' \<or> k = ''action'' \<or> k = ''timestamp'' \<or> k = ''previousHash'' \<or> k = ''signature'' \<or> k = ''currentHash''"
    by (simp add: field_names_def)
  then show ?thesis
    by (elim disjE) (simp_all add: set_field_def get_field_update)
qed

lemma get_field_empty: "get_field k empty_block = None"
  by (simp add: get_field_def empty_block_def)

lemma block_eqI:
  fixes a b :: block
  assumes "\<forall>k \<in> set field_names. get_field k a = get_field k b"
  shows "a = b"
proof -
  from assms have "get_field ''propertyID'' a = get_field ''propertyID'' b"
    "get_field ''owner'' a = get_field ''owner'' b"
    "get_field ''description'' a = get_field ''description'' b"
    "get_field ''remarks'' a = get_field ''remarks'' b"
    "get_field ''action'' a = get_field ''action'' b"
    "get_field ''timestamp'' a = get_field ''timestamp'' b"
    "get_field ''previousHash'' a = get_field ''previousHash'' b"
    "get_field ''signature'' a = get_field ''signature'' b"
    "get_field ''currentHash'' a = get_field ''currentHash'' b"
    by (simp_all add: field_names_def)
  then have "propertyID a = propertyID b"
    "owner a = owner b"
    "description a = description b"
    "remarks a = remarks b"
    "action a = action b"
    "timestamp a = timestamp b"
    "previousHash a = previousHash b"
    "signature a = signature b"
    "currentHash a = currentHash b"
    by (simp_all add: get_field_def)
  then show ?thesis by simp
qed

lemma get_field_other: "k \<notin> set field_names \<Longrightarrow> get_field k b = None"
  by (simp add: get_field_def field_names_def)

lemma block_of_members_fields:
  "\<exists>b'. block_of_members (present (own_properties ks b)) b0 = Some b' \<and>
        (\<forall>k. get_field k b' =
           (if k \<in> set ks \<and> get_field k b \<noteq> None then get_field k b else get_field k b0))"
proof (induction ks arbitrary: b0)
  case Nil
  show ?case by (simp add: own_properties_def)
next
  case (Cons k ks)
  show ?case
  proof (cases "get_field k b")
    case None
    from Cons.IH [of b0] obtain b' where
      "block_of_members (present (own_properties ks b)) b0 = Some b'"
      "\<forall>k. get_field k b' =
         (if k \<in> set ks \<and> get_field k b \<noteq> None then get_field k b else get_field k b0)"
      by blast
    with None show ?thesis by (auto simp add: own_properties_def)
  next
    case (Some v)
    then have k: "k \<in> set field_names"
      using get_field_other [of k b] by auto
    from Cons.IH [of "set_field k (Some v) b0"] obtain b' where
      "block_of_members (present (own_properties ks b)) (set_field k (Some v) b0) = Some b'"
      "\<forall>k'. get_field k' b' =
         (if k' \<in> set ks \<and> get_field k' b \<noteq> None then get_field k' b
          else get_field k' (set_field k (Some v) b0))"
      by blast
    with Some k show ?thesis by (auto simp add: own_properties_def get_set_field)
  qed
qed

lemma block_of_members_cover:
  assumes "keys_cover ks b"
  shows "block_of_members (present (own_properties ks b)) empty_block = Some b"
proof -
  from assms have cover: "\<forall>k \<in> set field_names. get_field k b \<noteq> None \<longrightarrow> k \<in> set ks"
    by (simp add: keys_cover_def)
  from block_of_members_fields [of ks b empty_block] obtain b' where
    b': "block_of_members (present (own_properties ks b)) empty_block = Some b'"
    and f: "\<forall>k. get_field k b' =
         (if k \<in> set ks \<and> get_field k b \<noteq> None then get_field k b else None)"
    by (auto simp add: get_field_empty)
  have "b' = b"
  proof (rule block_eqI, rule ballI)
    fix k assume "k \<in> set field_names"
    with cover f show "get_field k b' = get_field k b" by (cases "get_field k b") auto
  qed
  with b' show ?thesis by simp
qed

lemma length_join_sep_ge:
  "\<forall>x \<in> set xs. x \<noteq> [] \<Longrightarrow> length xs \<le> length (join_sep sep xs)"
proof (induction xs)
  case Nil
  show ?case by simp
next
  case (Cons x xs)
  then have "x \<noteq> []" and "length xs \<le> length (join_sep sep xs)" by auto
  then show ?case
    by (cases x) (simp_all add: join_sep_Cons del: join_sep.simps)
qed

lemma length_join_sep_mem:
  "x \<in> set xs \<Longrightarrow> length x \<le> length (join_sep sep xs)"
  by (induction xs) (auto simp add: join_sep_Cons simp del: join_sep.simps)

lemma pretty_member_nonempty: "pretty_member m \<noteq> []"
  by (simp add: pretty_member_def JSON_quote_def)

lemma pretty_object_Cons: "\<exists>x. pretty_object j p = CHR ''{'' # x"
  by (simp add: pretty_object_def)

lemma length_present_le: "length (present p) \<le> length (pretty_object j p)"
proof (cases "present p = []")
  case True
  then show ?thesis by simp
next
  case False
  have "length (map pretty_member (present p))
      \<le> length (join_sep ('','' @ newline_indent (j + 2)) (map pretty_member (present p)))"
    by (rule length_join_sep_ge) (simp add: pretty_member_nonempty)
  with False show ?thesis by (simp add: pretty_object_def)
qed

lemma skip_ws_pretty_object: "skip_ws (pretty_object j p @ x) = pretty_object j p @ x"
  using pretty_object_Cons [of j p] by (auto simp add: skip_ws_keep is_ws_def)

lemma parse_element_step:
  assumes "length (present p) \<le> fuel" and "block_of_members (present p) empty_block = Some b"
  shows "parse_elements fuel (Suc n) (pretty_object j p @ x) =
     (case skip_ws x of
        [] \<Rightarrow> None
      | d # r2 \<Rightarrow>
          if d = CHR '']'' then Some ([b], r2)
          else if d = CHR '','' then
            map_option (\<lambda>(bs, rest). (b # bs, rest)) (parse_elements fuel n (skip_ws r2))
          else None)"
  using assms by (simp add: parse_object_pretty)

lemma skip_ws_bracket: "skip_ws (newline_indent j @ CHR '']'' # r) = CHR '']'' # r"
  by (simp add: skip_ws_newline_indent skip_ws_keep is_ws_def)

lemma parse_elements_joined:
  "\<lbrakk>es \<noteq> []; length es \<le> n;
    \<forall>e \<in> set es. length (present (fst e)) \<le> fuel \<and>
                  block_of_members (present (fst e)) empty_block = Some (snd e)\<rbrakk> \<Longrightarrow>
   parse_elements fuel n
     (join_sep ('','' @ newline_indent i) (map (\<lambda>e. pretty_object j (fst e)) es) @
        newline_indent 0 @ '']'' @ r)
   = Some (map snd es, r)"
proof (induction es arbitrary: n)
  case Nil
  then show ?case by simp
next
  case (Cons e es)
  from Cons.prems obtain n' where n: "n = Suc n'" and le: "length es \<le> n'"
    by (cases n) auto
  from Cons.prems have e: "length (present (fst e)) \<le> fuel"
      "block_of_members (present (fst e)) empty_block = Some (snd e)"
    and rest: "\<forall>e \<in> set es. length (present (fst e)) \<le> fuel \<and>
                  block_of_members (present (fst e)) empty_block = Some (snd e)"
    by auto
  show ?case
  proof (cases "es = []")
    case True
    then show ?thesis
      by (simp add: n parse_element_step [OF e] skip_ws_bracket del: parse_elements.simps)
  next
    case False
    let ?rest = "join_sep ('','' @ newline_indent i) (map (\<lambda>e. pretty_object j (fst e)) es) @
        newline_indent 0 @ '']'' @ r"
    have tail: "parse_elements fuel n' ?rest = Some (map snd es, r)"
      using Cons.IH [OF False le rest] .
    obtain e' es' where es: "es = e' # es'" using False by (cases es) auto
    have "skip_ws ?rest = ?rest"
      by (simp add: es join_sep_Cons skip_ws_pretty_object del: join_sep.simps)
    then have start: "skip_ws (newline_indent i @ ?rest) = ?rest"
      by (simp add: skip_ws_newline_indent)
    have "parse_elements fuel (Suc n') (pretty_object j (fst e) @ ('','' @ newline_indent i @ ?rest))
        = map_option (\<lambda>(bs, rest). (snd e # bs, rest))
            (parse_elements fuel n' (skip_ws (newline_indent i @ ?rest)))"
      unfolding parse_element_step [OF e] by (simp add: skip_ws_comma)
    also have "\<dots> = Some (snd e # map snd es, r)"
      unfolding start tail by simp
    finally show ?thesis
      using False by (simp add: n join_sep_Cons del: join_sep.simps parse_elements.simps)
  qed
qed

lemma pretty_object_nonempty: "pretty_object j p \<noteq> []"
  by (simp add: pretty_object_def)

lemma JSON_parse_ledger_elements:
  assumes "t = ''['' @ newline_indent 2 @ CHR ''{'' # x"
    and "parse_elements (length t) (length t) (CHR ''{'' # x) = Some (bs, [])"
  shows "JSON_parse_ledger t = Some bs"
proof -
  have 1: "skip_ws t = CHR ''['' # newline_indent 2 @ CHR ''{'' # x"
    by (simp add: assms(1) skip_ws_keep is_ws_def)
  have 2: "skip_ws (newline_indent 2 @ CHR ''{'' # x) = CHR ''{'' # x"
    by (simp add: skip_ws_newline_indent skip_ws_keep is_ws_def)
  have 3: "skip_ws [] = []" by (simp add: skip_ws_def)
  show ?thesis
    unfolding JSON_parse_ledger_def 1
    using assms(2) by (simp add: 2 3 del: parse_elements.simps)
qed

lemma JSON_parse_ledger_pretty:
  assumes "\<forall>r \<in> set rs. keys_cover (keys r) (h r)"
  shows "JSON_parse_ledger
      (pretty_array (map (\<lambda>r. pretty_object 2 (own_properties (keys r) (h r))) rs))
    = Some (map h rs)"
proof (cases "rs = []")
  case True
  then show ?thesis
    by (simp add: JSON_parse_ledger_def pretty_array_def skip_ws_def is_ws_def)
next
  case False
  let ?es = "map (\<lambda>r. (own_properties (keys r) (h r), h r)) rs"
  let ?elems = "map (\<lambda>r. pretty_object 2 (own_properties (keys r) (h r))) rs"
  let ?body = "join_sep ('','' @ newline_indent 2) ?elems @ newline_indent 0 @ '']''"
  let ?text = "pretty_array ?elems"
  have shape: "?text = ''['' @ newline_indent 2 @ ?body"
    using False by (simp add: pretty_array_def)
  have elems: "?elems = map (\<lambda>e. pretty_object 2 (fst e)) ?es"
    by (simp add: comp_def)
  have n_le: "length ?es \<le> length ?text"
  proof -
    have "length ?elems \<le> length (join_sep ('','' @ newline_indent 2) ?elems)"
      by (rule length_join_sep_ge) (simp add: pretty_object_nonempty)
    then show ?thesis by (simp add: shape)
  qed
  have each: "\<forall>e \<in> set ?es. length (present (fst e)) \<le> length ?text \<and>
      block_of_members (present (fst e)) empty_block = Some (snd e)"
  proof
    fix e assume "e \<in> set ?es"
    then obtain r where r: "r \<in> set rs"
      and e: "e = (own_properties (keys r) (h r), h r)" by auto
    have "pretty_object 2 (fst e) \<in> set ?elems" using r e by auto
    then have "length (pretty_object 2 (fst e)) \<le> length (join_sep ('','' @ newline_indent 2) ?elems)"
      by (rule length_join_sep_mem)
    then have "length (present (fst e)) \<le> length ?text"
      using length_present_le [of "fst e" 2] by (simp add: shape)
    moreover have "block_of_members (present (fst e)) empty_block = Some (snd e)"
      using assms r e by (simp add: block_of_members_cover)
    ultimately show "length (present (fst e)) \<le> length ?text \<and>
      block_of_members (present (fst e)) empty_block = Some (snd e)" ..
  qed
  have es_ne: "?es \<noteq> []" using False by simp
  have parsed: "parse_elements (length ?text) (length ?text) ?body = Some (map snd ?es, [])"
    using parse_elements_joined [OF es_ne n_le each, of 2 2 "[]"] by (simp add: elems)
  obtain r0 rs' where chain: "rs = r0 # rs'" using False by (cases rs) auto
  obtain x where x: "?body = CHR ''{'' # x"
    using pretty_object_Cons [of 2 "own_properties (keys r0) (h r0)"]
    by (auto simp add: chain join_sep_Cons simp del: join_sep.simps)
  have t: "?text = ''['' @ newline_indent 2 @ CHR ''{'' # x"
    using shape x by simp
  have p: "parse_elements (length ?text) (length ?text) (CHR ''{'' # x) = Some (map snd ?es, [])"
    using parsed x by simp
  have "JSON_parse_ledger ?text = Some (map snd ?es)"
    using t p by (rule JSON_parse_ledger_elements)
  then show ?thesis by (simp add: comp_def)
qed

text \<open>
  The same through \<open>loadLedgerFromFile\<close>, with a \<open>JSON.parse\<close> that reads ledger
  files as \<open>JSON_parse_ledger\<close> does: the chain after the import of an exported text is
  the exported chain, and no alert is raised.
\<close>

lemma objects_map_Some: "objects (map Some bs) = bs"
  by (induction bs) simp_all

lemma import_of_export:
  assumes "\<forall>r \<in> set (blockchain st). keys_cover (keys r) (heap st r)"
  shows "chain_after (loadLedgerFromFile (JSON_parse_over other) nullMessage
           (downloadLedger keys st) st') = map Some (blocks st)"
    and "alerts_after (loadLedgerFromFile (JSON_parse_over other) nullMessage
           (downloadLedger keys st) st') = alerts st'"
proof -
  have read: "JSON_parse_ledger (downloadLedger keys st) = Some (blocks st)"
    using JSON_parse_ledger_pretty [OF assms] by (simp add: downloadLedger_def blocks_def)
  have none: "None \<notin> set (map Some (blocks st))" by auto
  have quiet: "alerts (updateStats (renderLedger (install (blocks st) st'))) = alerts st'"
    by (simp add: updateStats_def renderLedger_def install_def Let_def)
  show "chain_after (loadLedgerFromFile (JSON_parse_over other) nullMessage
           (downloadLedger keys st) st') = map Some (blocks st)"
    using none
    by (simp add: loadLedgerFromFile_def JSON_parse_over_def read chain_after_def
        objects_map_Some blocks_install del: set_map)
  show "alerts_after (loadLedgerFromFile (JSON_parse_over other) nullMessage
           (downloadLedger keys st) st') = alerts st'"
    using none quiet
    by (simp add: loadLedgerFromFile_def JSON_parse_over_def read alerts_after_def
        objects_map_Some del: set_map)
qed

section \<open>Evaluating digests\<close>

lemma schedule_numeral:
  "schedule (numeral n) ws =
     schedule (pred_numeral n) (trunc32 (ssig1 (ws ! 1) + ws ! 6 + ssig0 (ws ! 14) + ws ! 15) # ws)"
  by (simp add: numeral_eq_Suc)

lemma replicate_numeral: "replicate (numeral k) x = x # replicate (pred_numeral k) x"
  by (simp add: numeral_eq_Suc)

lemmas sha_eval =
  sha256_def Let_def TextEncoder_encode_def utf8_char_def SHA256_digest_def pad_def
  len_bytes_def replicate_numeral compress_def schedule_numeral round256_def step256_def
  K256_def H256_def ssig0_def ssig1_def bsig0_def bsig1_def Ch_def Maj_def rotr_def
  trunc32_def word_bytes_def slice_last2_def toString16.simps hexdigit_def

lemmas json_eval =
  JSON_stringify_def JSON_member_def JSON_quote_def json_escape_def hexdigit_def

lemmas chain_eval =
  build.simps heap_addBlock stamped_def Let_def validateChain_def validate_from.simps
  check_block_def calculateHash_def dataForHash_def signRecord_def toSign_def or_empty_def
  blocks_def tamper_def two_records_def blank_heap_def rec0_def rec1_def empty_block_def
  day1_def day2_def

lemma hash_first:
  "sha256 (JSON_stringify [(''propertyID'', Some ''P1''), (''owner'', Some ''Alice''),
     (''description'', Some ''House''), (''remarks'', Some ''''), (''action'', Some ''Register''),
     (''timestamp'', Some ''2026-01-01T00:00:00.000Z''), (''previousHash'', Some ''0'')])
   = ''6768a317afd944976d0d4233332de2039d7156c9563d51ea38f7b7ae598d45d8''"
  by (simp add: json_eval sha_eval)

lemma hash_second:
  "sha256 (JSON_stringify [(''propertyID'', Some ''P1''), (''owner'', Some ''Alice''),
     (''description'', Some ''House''), (''remarks'', Some ''''), (''action'', Some ''Register''),
     (''timestamp'', Some ''2026-01-02T00:00:00.000Z''),
     (''previousHash'', Some ''6768a317afd944976d0d4233332de2039d7156c9563d51ea38f7b7ae598d45d8'')])
   = ''5c1724294b248b5324c751fc5bb0ec77bdcfa2cd925a033e2ab9ceb086579108''"
  by (simp add: json_eval sha_eval)

lemma sign_bob_s1:
  "sha256 ''P1|Bob|Transfer|2026-01-02T00:00:00.000Z|s1''
     = ''5e9f6e5f709af6ca8d88576d373c7669798ab1192e32cc15ad71c19b0ffcc288''"
  by (simp add: sha_eval)

lemma sign_bob_s2:
  "sha256 ''P1|Bob|Transfer|2026-01-02T00:00:00.000Z|s2''
     = ''8d0163f5a7ec6a1527bad4e88536122292c07cd23fcece9eab5d5a9355896727''"
  by (simp add: sha_eval)

lemma hash_mallory:
  "sha256 (JSON_stringify [(''propertyID'', Some ''P1''), (''owner'', Some ''Mallory''),
     (''description'', Some ''House''), (''remarks'', Some ''''), (''action'', Some ''Register''),
     (''timestamp'', Some ''2026-01-01T00:00:00.000Z''), (''previousHash'', Some ''0'')])
   = ''b44349dd5558e9ac5a2552e15191983944c2e11c751ce84b0986b90d4f9baef5''"
  by (simp add: json_eval sha_eval)

section \<open>Soundness of the validator\<close>

text \<open>
  C1, for calls that each hand over an object not yet in the chain: a chain built by
  \<open>addBlock\<close> alone under one secret validates under that secret.
\<close>

theorem validateChain_sound:
  assumes "distinct (map fst calls)" and "calls \<noteq> []"
    and "\<forall>c \<in> set calls. fst (snd c) = s"
  shows "validateChain s (build calls (init h)) = ChainValid"
proof (rule validateChain_pass)
  show "blockchain (build calls (init h)) \<noteq> []"
    using assms(2) by (simp add: blockchain_build init_def)
  have inv: "sealed_chain (build calls (init h)) (secrets_of calls)"
    using assms(1) by (rule sealed_chain_build)
  show "\<forall>j < length (blockchain (build calls (init h))). check_block (build calls (init h)) s j = None"
  proof (intro allI impI)
    fix j assume j: "j < length (blockchain (build calls (init h)))"
    then have "secrets_of calls ! j = s"
      using assms(3) by (simp add: secrets_of_def)
    with check_block_sealed [OF inv j, of s] show "check_block (build calls (init h)) s j = None"
      by simp
  qed
qed

theorem validateChain_sound_witness:
  "distinct (map fst [(0::nat, ''s1'', day1), (1, ''s1'', day2)]) \<and>
   [(0::nat, ''s1'', day1), (1, ''s1'', day2)] \<noteq> [] \<and>
   secrets_of [(0::nat, ''s1'', day1), (1, ''s1'', day2)] = [''s1'', ''s1''] \<and>
   validateChain ''s1'' (build [(0, ''s1'', day1), (1, ''s1'', day2)] (init two_records)) = ChainValid"
  using validateChain_sound [of "[(0, ''s1'', day1), (1, ''s1'', day2)]" "''s1''" two_records]
  by (simp add: secrets_of_def)

theorem validateChain_same_object_twice:
  "validateChain ''s1'' (build [(0, ''s1'', day1), (0, ''s1'', day2)] (init two_records))
     = BrokenLink 1"
  by (simp add: chain_eval hash_first hash_second)

section \<open>Linkage\<close>

text \<open>
  C2, for calls that each hand over an object not yet in the chain: the first block of a
  chain built by \<open>addBlock\<close> alone has the previous digest \<open>"0"\<close>, and every later block
  has the digest of its predecessor.
\<close>

theorem chain_linkage:
  assumes "distinct (map fst calls)"
  shows "length (blocks (build calls (init h))) = length calls \<and>
     (calls \<noteq> [] \<longrightarrow> previousHash (blocks (build calls (init h)) ! 0) = Some ''0'') \<and>
     (\<forall>i. 1 \<le> i \<and> i < length calls \<longrightarrow>
        previousHash (blocks (build calls (init h)) ! i) =
          currentHash (blocks (build calls (init h)) ! (i - 1)))"
proof -
  have inv: "sealed_chain (build calls (init h)) (secrets_of calls)"
    using assms by (rule sealed_chain_build)
  then show ?thesis
    by (auto simp add: sealed_chain_def blocks_def)
qed

theorem chain_linkage_witness:
  "distinct (map fst [(0::nat, ''s1'', day1), (1, ''s1'', day2)]) \<and>
   previousHash (blocks (build [(0, ''s1'', day1), (1, ''s1'', day2)] (init two_records)) ! 0)
     = Some ''0'' \<and>
   previousHash (blocks (build [(0, ''s1'', day1), (1, ''s1'', day2)] (init two_records)) ! 1)
     = currentHash (blocks (build [(0, ''s1'', day1), (1, ''s1'', day2)] (init two_records)) ! 0)"
  using chain_linkage [of "[(0, ''s1'', day1), (1, ''s1'', day2)]" two_records]
  by simp

theorem chain_linkage_same_object_twice:
  "previousHash (blocks (build [(0, ''s1'', day1), (0, ''s1'', day2)] (init two_records)) ! 0)
     \<noteq> Some ''0''"
  by (simp add: chain_eval hash_first)

section \<open>Tampering with a hashed field\<close>

text \<open>
  C3, for the fields that the digest covers: on a chain built with one new object per call
  under one secret, overwriting block \<open>k\<close> so that a hashed field changes while the stored
  digest stays, or so that only the stored digest changes, makes validation report the
  digest of block \<open>k\<close>, unless the old and the new encoding collide under SHA-256.
\<close>

theorem hash_tamper_detected:
  assumes "distinct (map fst calls)" and "\<forall>c \<in> set calls. fst (snd c) = s"
    and "k < length calls"
    and "(currentHash (f (blocks (build calls (init h)) ! k)) =
            currentHash (blocks (build calls (init h)) ! k) \<and>
          dataForHash (f (blocks (build calls (init h)) ! k)) \<noteq>
            dataForHash (blocks (build calls (init h)) ! k) \<and>
          \<not> collision (JSON_stringify (dataForHash (blocks (build calls (init h)) ! k)))
                      (JSON_stringify (dataForHash (f (blocks (build calls (init h)) ! k)))))
       \<or> (dataForHash (f (blocks (build calls (init h)) ! k)) =
            dataForHash (blocks (build calls (init h)) ! k) \<and>
          currentHash (f (blocks (build calls (init h)) ! k)) \<noteq>
            currentHash (blocks (build calls (init h)) ! k))"
  shows "validateChain s (tamper k f (build calls (init h))) = HashMismatch k"
proof -
  let ?st = "build calls (init h)"
  let ?b = "heap ?st (blockchain ?st ! k)"
  let ?t = "tamper k f ?st"
  have inv: "sealed_chain ?st (secrets_of calls)"
    using assms(1) by (rule sealed_chain_build)
  have k: "k < length (blockchain ?st)" using assms(3) by simp
  then have b: "blocks ?st ! k = ?b" by (simp add: blocks_def)
  have stored: "currentHash ?b = Some (calculateHash ?b)"
    using inv k by (simp add: sealed_chain_def)
  have "Some (calculateHash (f ?b)) \<noteq> currentHash (f ?b)"
    using assms(4) unfolding b
  proof (elim disjE conjE)
    assume same: "currentHash (f ?b) = currentHash ?b"
      and "dataForHash (f ?b) \<noteq> dataForHash ?b"
      and nc: "\<not> collision (JSON_stringify (dataForHash ?b)) (JSON_stringify (dataForHash (f ?b)))"
    then have "JSON_stringify (dataForHash ?b) \<noteq> JSON_stringify (dataForHash (f ?b))"
      using dataForHash_inject [of ?b "f ?b"] by auto
    with nc have "calculateHash (f ?b) \<noteq> calculateHash ?b"
      by (auto simp add: collision_def calculateHash_def)
    with same stored show ?thesis by simp
  next
    assume "dataForHash (f ?b) = dataForHash ?b" and "currentHash (f ?b) \<noteq> currentHash ?b"
    then show ?thesis using stored by (simp add: calculateHash_def)
  qed
  then have "check_block ?t s k = Some (HashMismatch k)"
    by (simp add: check_block_def Let_def heap_tamper_at)
  moreover have "\<forall>j < k. check_block ?t s j = None"
  proof (intro allI impI)
    fix j assume j: "j < k"
    then have "check_block ?t s j = check_block ?st s j"
      using check_block_before_tamper [OF inv k] by simp
    also have "\<dots> = None"
      using check_block_single_secret [OF inv] j k secrets_of_single [OF assms(2)] assms(3) by simp
    finally show "check_block ?t s j = None" .
  qed
  ultimately show ?thesis
    using validateChain_first_failure [of k ?t s] k by simp
qed

theorem hash_tamper_detected_witness:
  "distinct (map fst [(0::nat, ''s1'', day1)]) \<and>
   secrets_of [(0::nat, ''s1'', day1)] = [''s1''] \<and>
   currentHash (set_owner (Some ''Mallory'') (blocks (build [(0, ''s1'', day1)] (init two_records)) ! 0))
     = currentHash (blocks (build [(0, ''s1'', day1)] (init two_records)) ! 0) \<and>
   dataForHash (set_owner (Some ''Mallory'') (blocks (build [(0, ''s1'', day1)] (init two_records)) ! 0))
     \<noteq> dataForHash (blocks (build [(0, ''s1'', day1)] (init two_records)) ! 0) \<and>
   \<not> collision
      (JSON_stringify (dataForHash (blocks (build [(0, ''s1'', day1)] (init two_records)) ! 0)))
      (JSON_stringify (dataForHash (set_owner (Some ''Mallory'')
         (blocks (build [(0, ''s1'', day1)] (init two_records)) ! 0)))) \<and>
   validateChain ''s1'' (tamper 0 (set_owner (Some ''Mallory'')) (build [(0, ''s1'', day1)] (init two_records)))
     = HashMismatch 0"
  using hash_tamper_detected [of "[(0, ''s1'', day1)]" "''s1''" 0 "set_owner (Some ''Mallory'')" two_records]
  by (simp add: secrets_of_def collision_def set_owner_def chain_eval hash_first hash_mallory)

theorem signature_or_blank_description_tamper:
  "validateChain ''s1''
     (tamper 1 (set_signature (Some ''forged''))
        (build [(0, ''s1'', day1), (1, ''s1'', day2)] (init two_records)))
     = SignatureInvalid 1 \<and>
   validateChain ''s1''
     (tamper 1 (set_description (Some []))
        (build [(0, ''s1'', day1), (1, ''s1'', day2)] (init two_records)))
     = ChainValid"
  by (simp add: set_signature_def set_description_def chain_eval sign_bob_s1)

section \<open>The signature is outside the digest\<close>

text \<open>
  C4: the digest is the same whatever the signature field holds; on a chain built with one
  new object per call under one secret, replacing the signature of block \<open>k\<close> by another
  value leaves the digest check at \<open>k\<close> passing and makes validation report the
  signature at \<open>k\<close>.
\<close>

theorem signature_outside_digest:
  assumes "distinct (map fst calls)" and "\<forall>c \<in> set calls. fst (snd c) = s"
    and "k < length calls"
    and "v \<noteq> signature (blocks (build calls (init h)) ! k)"
  shows "(\<forall>b x. calculateHash (b\<lparr>signature := x\<rparr>) = calculateHash b) \<and>
     currentHash (blocks (tamper k (\<lambda>b. b\<lparr>signature := v\<rparr>) (build calls (init h))) ! k) =
       Some (calculateHash (blocks (tamper k (\<lambda>b. b\<lparr>signature := v\<rparr>) (build calls (init h))) ! k)) \<and>
     validateChain s (tamper k (\<lambda>b. b\<lparr>signature := v\<rparr>) (build calls (init h)))
       = SignatureInvalid k"
proof -
  let ?st = "build calls (init h)"
  let ?f = "\<lambda>b. b\<lparr>signature := v\<rparr>"
  let ?st' = "tamper k ?f ?st"
  have inv: "sealed_chain ?st (secrets_of calls)"
    using assms(1) by (rule sealed_chain_build)
  have k: "k < length (blockchain ?st)" using assms(3) by simp
  then have d: "distinct (blockchain ?st)" using inv by (simp add: sealed_chain_def)
  have here: "heap ?st' (blockchain ?st ! k) = ?f (heap ?st (blockchain ?st ! k))"
    by (rule heap_tamper_at)
  have sealed_k: "currentHash (heap ?st (blockchain ?st ! k)) = Some (calculateHash (heap ?st (blockchain ?st ! k)))"
    "signature (heap ?st (blockchain ?st ! k)) = Some (signRecord (heap ?st (blockchain ?st ! k)) s)"
    "previousHash (heap ?st (blockchain ?st ! k)) =
       (if k = 0 then Some ''0'' else currentHash (heap ?st (blockchain ?st ! (k - 1))))"
    using inv k secrets_of_single [OF assms(2,3)] by (simp_all add: sealed_chain_def)
  have prev: "heap ?st' (blockchain ?st ! (k - 1)) = heap ?st (blockchain ?st ! (k - 1))" if "0 < k"
    using heap_tamper_other [OF d _ k, of "k - 1" ?f] that k by simp
  have digest: "currentHash (blocks ?st' ! k) = Some (calculateHash (blocks ?st' ! k))"
    using k here sealed_k(1) by (simp add: blocks_def)
  have "check_block ?st' s k = Some (SignatureInvalid k)"
  proof (cases "0 < k")
    case True
    with here prev sealed_k assms(4) k show ?thesis
      by (auto simp add: check_block_def Let_def blocks_def)
  next
    case False
    with here sealed_k assms(4) k show ?thesis
      by (auto simp add: check_block_def Let_def blocks_def)
  qed
  moreover have "\<forall>j < k. check_block ?st' s j = None"
  proof (intro allI impI)
    fix j assume j: "j < k"
    then have "check_block ?st' s j = check_block ?st s j"
      using check_block_before_tamper [OF inv k] by simp
    also have "\<dots> = None"
      using check_block_single_secret [OF inv] j k secrets_of_single [OF assms(2)] assms(3) by simp
    finally show "check_block ?st' s j = None" .
  qed
  ultimately have "validateChain s ?st' = SignatureInvalid k"
    using validateChain_first_failure [of k ?st' s] k by simp
  with digest show ?thesis by simp
qed

theorem signature_outside_digest_witness:
  "distinct (map fst [(0::nat, ''s1'', day1), (1, ''s1'', day2)]) \<and>
   secrets_of [(0::nat, ''s1'', day1), (1, ''s1'', day2)] = [''s1'', ''s1''] \<and>
   Some ''forged'' \<noteq>
     signature (blocks (build [(0, ''s1'', day1), (1, ''s1'', day2)] (init two_records)) ! 1) \<and>
   validateChain ''s1''
     (tamper 1 (\<lambda>b. b\<lparr>signature := Some ''forged''\<rparr>)
        (build [(0, ''s1'', day1), (1, ''s1'', day2)] (init two_records)))
     = SignatureInvalid 1"
  using signature_outside_digest [of "[(0, ''s1'', day1), (1, ''s1'', day2)]" "''s1''" 1
      "Some ''forged''" two_records]
  by (simp add: secrets_of_def chain_eval sign_bob_s1)

section \<open>Link tampering\<close>

text \<open>
  C5: on a chain built with one new object per call under one secret, giving block \<open>k > 0\<close>
  another previous digest and recomputing its own digest makes validation report the broken
  link at \<open>k\<close>, whatever the blocks after \<open>k\<close> hold.
\<close>

theorem link_tamper_detected:
  assumes "distinct (map fst calls)" and "\<forall>c \<in> set calls. fst (snd c) = s"
    and "0 < k" and "k < length calls"
    and "v \<noteq> previousHash (blocks (build calls (init h)) ! k)"
    and "agree_upto k (tamper k (relink v) (build calls (init h))) st'"
  shows "validateChain s st' = BrokenLink k"
proof -
  let ?st = "build calls (init h)"
  let ?t = "tamper k (relink v) ?st"
  have inv: "sealed_chain ?st (secrets_of calls)"
    using assms(1) by (rule sealed_chain_build)
  have k: "k < length (blockchain ?st)" using assms(4) by simp
  have d: "distinct (blockchain ?st)" using inv by (simp add: sealed_chain_def)
  have k': "k < length (blockchain st')"
    and same: "\<And>i. i \<le> k \<Longrightarrow> heap st' (blockchain st' ! i) = heap ?t (blockchain ?st ! i)"
    using assms(6) by (simp_all add: agree_upto_def)
  have before: "heap ?t (blockchain ?st ! j) = heap ?st (blockchain ?st ! j)" if "j < k" for j
    using heap_tamper_other [OF d _ k, of j "relink v"] that k by simp
  have here: "heap ?t (blockchain ?st ! k) = relink v (heap ?st (blockchain ?st ! k))"
    by (rule heap_tamper_at)
  have link: "previousHash (heap ?st (blockchain ?st ! k)) =
      currentHash (heap ?st (blockchain ?st ! (k - 1)))"
    using inv k assms(3) by (simp add: sealed_chain_def)
  have "check_block st' s k = Some (BrokenLink k)"
    using same [of k] same [of "k - 1"] here before [of "k - 1"] assms(3,5) link k
    by (simp add: check_block_def Let_def blocks_def calculateHash_relink)
  moreover have "\<forall>j < k. check_block st' s j = None"
  proof (intro allI impI)
    fix j assume j: "j < k"
    have "check_block st' s j = check_block ?st s j"
    proof (rule check_block_agree)
      show "heap st' (blockchain st' ! j) = heap ?st (blockchain ?st ! j)"
        using same [of j] before [of j] j by simp
      assume "0 < j"
      then show "heap st' (blockchain st' ! (j - 1)) = heap ?st (blockchain ?st ! (j - 1))"
        using same [of "j - 1"] before [of "j - 1"] j by simp
    qed
    also have "\<dots> = None"
      using check_block_single_secret [OF inv] j k secrets_of_single [OF assms(2)] assms(4) by simp
    finally show "check_block st' s j = None" .
  qed
  ultimately show ?thesis
    using validateChain_first_failure [of k st' s] k' by simp
qed

theorem link_tamper_detected_witness:
  "distinct (map fst [(0::nat, ''s1'', day1), (1, ''s1'', day2)]) \<and>
   secrets_of [(0::nat, ''s1'', day1), (1, ''s1'', day2)] = [''s1'', ''s1''] \<and>
   Some ''0'' \<noteq>
     previousHash (blocks (build [(0, ''s1'', day1), (1, ''s1'', day2)] (init two_records)) ! 1) \<and>
   validateChain ''s1''
     (tamper 1 (relink (Some ''0''))
        (build [(0, ''s1'', day1), (1, ''s1'', day2)] (init two_records)))
     = BrokenLink 1"
  using link_tamper_detected [of "[(0, ''s1'', day1), (1, ''s1'', day2)]" "''s1''" 1
      "Some ''0''" two_records
      "tamper 1 (relink (Some ''0'')) (build [(0, ''s1'', day1), (1, ''s1'', day2)] (init two_records))"]
    agree_upto_refl [of 1 "tamper 1 (relink (Some ''0'')) (build [(0, ''s1'', day1), (1, ''s1'', day2)] (init two_records))"]
  by (simp add: secrets_of_def chain_eval hash_first)

section \<open>Wrong secret\<close>

text \<open>
  C6, for calls that each hand over an object not yet in the chain, and unless the two
  signing strings of block \<open>k\<close> collide under SHA-256: validation under \<open>g\<close> reports the
  signature of the first block that was appended under another secret.
\<close>

theorem wrong_secret_detected:
  assumes "distinct (map fst calls)"
    and "first_other g (secrets_of calls) = Some k"
    and "\<not> collision (toSign (blocks (build calls (init h)) ! k) g)
                     (toSign (blocks (build calls (init h)) ! k) (secrets_of calls ! k))"
  shows "validateChain g (build calls (init h)) = SignatureInvalid k"
proof -
  let ?st = "build calls (init h)"
  have inv: "sealed_chain ?st (secrets_of calls)"
    using assms(1) by (rule sealed_chain_build)
  from first_other_Some [OF assms(2)]
  have k: "k < length calls" and other: "secrets_of calls ! k \<noteq> g"
    and same: "\<forall>j < k. secrets_of calls ! j = g"
    by simp_all
  have kb: "k < length (blockchain ?st)" using k by simp
  have "signRecord (heap ?st (blockchain ?st ! k)) g \<noteq>
        signRecord (heap ?st (blockchain ?st ! k)) (secrets_of calls ! k)"
    using assms(3) other kb by (simp add: collision_def signRecord_def blocks_def toSign_inject)
  then have "check_block ?st g k = Some (SignatureInvalid k)"
    using check_block_sealed [OF inv kb, of g] by simp
  moreover have "\<forall>j < k. check_block ?st g j = None"
    using check_block_single_secret [OF inv] same kb by simp
  ultimately show ?thesis
    using validateChain_first_failure [of k ?st g] kb by simp
qed

theorem wrong_secret_detected_witness:
  "distinct (map fst [(0::nat, ''s1'', day1), (1, ''s2'', day2)]) \<and>
   first_other ''s1'' (secrets_of [(0::nat, ''s1'', day1), (1, ''s2'', day2)]) = Some 1 \<and>
   \<not> collision (toSign (blocks (build [(0, ''s1'', day1), (1, ''s2'', day2)] (init two_records)) ! 1) ''s1'')
               (toSign (blocks (build [(0, ''s1'', day1), (1, ''s2'', day2)] (init two_records)) ! 1) ''s2'') \<and>
   validateChain ''s1'' (build [(0, ''s1'', day1), (1, ''s2'', day2)] (init two_records))
     = SignatureInvalid 1"
  using wrong_secret_detected [of "[(0, ''s1'', day1), (1, ''s2'', day2)]" "''s1''" 1 two_records]
  by (simp add: secrets_of_def collision_def chain_eval sign_bob_s1 sign_bob_s2 del: length_secrets_of)

theorem wrong_secret_same_object_twice:
  "first_other ''s2'' (secrets_of [(0::nat, ''s1'', day1), (0, ''s2'', day2)]) = Some 0 \<and>
   validateChain ''s2'' (build [(0, ''s1'', day1), (0, ''s2'', day2)] (init two_records))
     = BrokenLink 1"
  by (simp add: secrets_of_def chain_eval hash_first hash_second)

section \<open>Determinism of the encoding\<close>

text \<open>
  C9: two blocks that agree on the hashed fields, with absent description and remarks
  read as the empty string, have the same canonical encoding and the same digest.
\<close>

theorem calculateHash_deterministic:
  assumes "propertyID a = propertyID b" and "owner a = owner b"
    and "or_empty (description a) = or_empty (description b)"
    and "or_empty (remarks a) = or_empty (remarks b)"
    and "action a = action b" and "timestamp a = timestamp b"
    and "previousHash a = previousHash b"
  shows "JSON_stringify (dataForHash a) = JSON_stringify (dataForHash b) \<and>
         calculateHash a = calculateHash b"
  using assms by (simp add: calculateHash_def dataForHash_def)

theorem calculateHash_deterministic_witness:
  "or_empty (description rec1) = or_empty (description (rec1\<lparr>description := Some []\<rparr>)) \<and>
   rec1 \<noteq> rec1\<lparr>description := Some []\<rparr> \<and>
   JSON_stringify (dataForHash rec1) = JSON_stringify (dataForHash (rec1\<lparr>description := Some []\<rparr>)) \<and>
   calculateHash rec1 = calculateHash (rec1\<lparr>description := Some []\<rparr>)"
  using calculateHash_deterministic [of rec1 "rec1\<lparr>description := Some []\<rparr>"]
  by (simp add: rec1_def empty_block_def or_empty_def)

section \<open>Append only\<close>

text \<open>
  C10, for a record object that is not yet in the chain: \<open>addBlock\<close> appends the object
  and leaves every earlier block as it was, the two appending handlers keep the earlier
  blocks as a prefix, and validation, timeline and statistics change neither the chain
  nor the heap.
\<close>

theorem append_only_frame:
  assumes "record \<notin> set (blockchain st)" and "chain_allocated st"
  shows "blockchain (addBlock record userSecret now st) = blockchain st @ [record] \<and>
     (\<forall>r \<in> set (blockchain st). heap (addBlock record userSecret now st) r = heap st r) \<and>
     take (length (blocks st)) (blocks (addBlock record userSecret now st)) = blocks st \<and>
     take (length (blocks st)) (blocks (registerProperty pid desc own userSecret now st)) = blocks st \<and>
     take (length (blocks st)) (blocks (transferProperty pid own rem userSecret now st)) = blocks st \<and>
     heap (validateChain_click g st) = heap st \<and>
     blockchain (validateChain_click g st) = blockchain st \<and>
     heap (showTimeline pid st) = heap st \<and> blockchain (showTimeline pid st) = blockchain st \<and>
     heap (updateStats st) = heap st \<and> blockchain (updateStats st) = blockchain st \<and>
     heap (renderLedger st) = heap st \<and> blockchain (renderLedger st) = blockchain st"
proof -
  have "\<forall>r \<in> set (blockchain st). heap (addBlock record userSecret now st) r = heap st r"
    using assms(1) by (simp add: heap_addBlock_member)
  moreover have "take (length (blocks st)) (blocks (addBlock record userSecret now st)) = blocks st"
    using blocks_addBlock_fresh [OF assms(1)] by simp
  ultimately show ?thesis
    using assms(2) by (simp add: registerProperty_prefix transferProperty_prefix)
qed

theorem append_only_frame_witness:
  "chain_allocated (registerProperty ''P1'' ''House'' ''Alice'' ''s1'' day1 (init blank_heap)) \<and>
   (1::nat) \<notin> set (blockchain (registerProperty ''P1'' ''House'' ''Alice'' ''s1'' day1 (init blank_heap))) \<and>
   blockchain (addBlock 1 ''s1'' day2
      (registerProperty ''P1'' ''House'' ''Alice'' ''s1'' day1 (init blank_heap))) = [0, 1] \<and>
   heap (addBlock 1 ''s1'' day2
      (registerProperty ''P1'' ''House'' ''Alice'' ''s1'' day1 (init blank_heap))) 0
     = heap (registerProperty ''P1'' ''House'' ''Alice'' ''s1'' day1 (init blank_heap)) 0 \<and>
   take 1 (blocks (transferProperty ''P1'' ''Bob'' ''sold'' ''s1'' day2
      (registerProperty ''P1'' ''House'' ''Alice'' ''s1'' day1 (init blank_heap))))
     = blocks (registerProperty ''P1'' ''House'' ''Alice'' ''s1'' day1 (init blank_heap))"
  using append_only_frame [of 1 "registerProperty ''P1'' ''House'' ''Alice'' ''s1'' day1 (init blank_heap)"
      "''s1''" day2 "''P1''" "''House''" "''Bob''" "''sold''" "''s1''"]
  by (simp add: chain_allocated_def registerProperty_def blocks_def init_def new_object_def)

theorem append_only_same_object_twice:
  "blocks (addBlock 0 ''s1'' day2 (addBlock 0 ''s1'' day1 (init two_records))) ! 0
     \<noteq> blocks (addBlock 0 ''s1'' day1 (init two_records)) ! 0"
  by (simp add: chain_eval)

section \<open>Import is all or nothing\<close>



section \<open>Export and import\<close>



end
